theory Spec2Isabelle
  imports Complex_Main "HOL-Library.Stream" "HOL-Library.Multiset"
begin

section \<open>Random engines and failures\<close>

text \<open>
  A pseudo-random engine (\<^verbatim>\<open>std::mt19937\<close>, \<^verbatim>\<open>std::mt19937_64\<close>) is modelled by the
  stream of raw numbers it is going to produce; drawing consumes the head of the stream.
  \<^verbatim>\<open>std::uniform_int_distribution<T>(a, b)(engine)\<close> maps the next raw number into
  the closed range \<open>[a, b]\<close>; every value of the range is the image of some raw number.
  How many outputs of the engine the library uses for one draw is not modelled: a draw
  returns, and it consumes one number of the stream. The C++ standard requires \<open>a \<le> b\<close>:
  call sites where the bounds are not constants check this before drawing and fail with
  \<open>UndefinedBehaviour\<close> otherwise.
\<close>

type_synonym engine = "nat stream"

datatype error =
    RuntimeError          \<comment> \<open>\<^verbatim>\<open>throw std::runtime_error("there are no words to sample")\<close>\<close>
  | UndefinedBehaviour    \<comment> \<open>a precondition of the C++ library or language is violated\<close>
  | ProcessExit           \<comment> \<open>\<^verbatim>\<open>std::exit(-1)\<close>\<close>

definition uniform_int_distribution :: "nat \<Rightarrow> nat \<Rightarrow> engine \<Rightarrow> nat \<times> engine" where
  "uniform_int_distribution a b g = (a + shd g mod (b - a + 1), stl g)"

text \<open>
  \<^verbatim>\<open>std::size_t\<close> subtraction: the difference wraps around modulo \<open>2 ^ 64\<close> when the
  subtrahend is the larger number. All sizes are below \<open>2 ^ 64\<close>.
\<close>

definition sz_sub :: "nat \<Rightarrow> nat \<Rightarrow> nat" where
  "sz_sub a b = (if b \<le> a then a - b else a + 2 ^ 64 - b)"

section \<open>Characters\<close>

definition NUM_DIGITS :: nat where
  "NUM_DIGITS = of_char CHR ''9'' - of_char CHR ''0'' + 1"

definition NUM_ALPHAS :: nat where
  "NUM_ALPHAS = (of_char CHR ''Z'' - of_char CHR ''A'' + 1) * 2"

definition sample_ascii :: "engine \<Rightarrow> char \<times> engine" where
  "sample_ascii g =
     (let (ch, g') = uniform_int_distribution 0 (NUM_ALPHAS + NUM_DIGITS - 1) g in
      if ch < NUM_DIGITS then (char_of (of_char CHR ''0'' + ch), g')
      else
        (let ch = ch - NUM_DIGITS in
         (if ch \<le> of_char CHR ''Z'' - of_char CHR ''A''
          then char_of (of_char CHR ''A'' + ch)
          else char_of (of_char CHR ''a'' + (ch - (of_char CHR ''Z'' - of_char CHR ''A'' + 1))),
          g')))"

definition sample_digit :: "engine \<Rightarrow> char \<times> engine" where
  "sample_digit g =
     (let (ch, g') = uniform_int_distribution (of_char CHR ''0'') (of_char CHR ''9'') g
      in (char_of ch, g'))"

definition sample_ascii_lower :: "engine \<Rightarrow> char \<times> engine" where
  "sample_ascii_lower g =
     (let (ch, g') = uniform_int_distribution (of_char CHR ''a'') (of_char CHR ''z'') g
      in (char_of ch, g'))"

text \<open>
  \<^verbatim>\<open>std::tolower\<close> and \<^verbatim>\<open>std::toupper\<close> in the default "C" locale: only the ASCII
  letters change. A character beyond ASCII, for which the call is not defined when
  \<^verbatim>\<open>char\<close> is signed, is left as it is.
\<close>

definition tolower :: "char \<Rightarrow> char" where
  "tolower c =
     (if of_char CHR ''A'' \<le> (of_char c :: nat) \<and> (of_char c :: nat) \<le> of_char CHR ''Z''
      then char_of ((of_char c :: nat) + 32) else c)"

definition toupper :: "char \<Rightarrow> char" where
  "toupper c =
     (if of_char CHR ''a'' \<le> (of_char c :: nat) \<and> (of_char c :: nat) \<le> of_char CHR ''z''
      then char_of ((of_char c :: nat) - 32) else c)"

text \<open>The character classes the specification speaks about.\<close>

definition is_digit :: "char \<Rightarrow> bool" where
  "is_digit c = (48 \<le> (of_char c :: nat) \<and> (of_char c :: nat) \<le> 57)"

definition is_upper :: "char \<Rightarrow> bool" where
  "is_upper c = (65 \<le> (of_char c :: nat) \<and> (of_char c :: nat) \<le> 90)"

definition is_lower :: "char \<Rightarrow> bool" where
  "is_lower c = (97 \<le> (of_char c :: nat) \<and> (of_char c :: nat) \<le> 122)"

definition is_alnum :: "char \<Rightarrow> bool" where
  "is_alnum c = (is_digit c \<or> is_upper c \<or> is_lower c)"

section \<open>The word corpus\<close>

type_synonym WordDB = "string list list"

definition MAX_NICKNAME_LEN :: nat where
  "MAX_NICKNAME_LEN = 12"

text \<open>
  \<^verbatim>\<open>std::getline(f, line)\<close> on the unread rest of the file: the characters up to the next
  newline (which is consumed and dropped), the rest behind it, and whether the end of the
  file was reached while reading (\<^verbatim>\<open>eofbit\<close>).
\<close>

fun getline :: "string \<Rightarrow> string \<times> string \<times> bool" where
  "getline [] = ([], [], True)"
| "getline (c # cs) =
     (if c = CHR 0x0A then ([], cs, False)
      else (let (line, rest, eof) = getline cs in (c # line, rest, eof)))"

text \<open>
  The body of the loop in \<^verbatim>\<open>load_word_db\<close>: the test \<^verbatim>\<open>line.length() - 2 < db.size()\<close> in
  \<^verbatim>\<open>std::size_t\<close> arithmetic, and \<^verbatim>\<open>emplace_back\<close> of the line without its first and
  last character.
\<close>

definition store_line :: "WordDB \<Rightarrow> string \<Rightarrow> WordDB" where
  "store_line db line =
     (if sz_sub (length line) 2 < length db
      then db[sz_sub (length line) 2 :=
                db ! sz_sub (length line) 2 @ [take (sz_sub (length line) 2) (drop 1 line)]]
      else db)"

text \<open>
  The loop \<^verbatim>\<open>for (auto line = std::string(); !std::getline(f, line).eof();)\<close>: a line is
  processed only if reading it did not reach the end of the file.
\<close>

function load_loop :: "string \<Rightarrow> WordDB \<Rightarrow> WordDB" where
  "load_loop f db =
     (case getline f of
        (line, rest, eof) \<Rightarrow> if eof then db else load_loop rest (store_line db line))"
  by pat_completeness auto
termination
proof (relation "measure (\<lambda>(f, db). length f)", goal_cases)
  case 1
  show ?case by simp
next
  case (2 f db line y rest eof)
  have "getline f = (l, r, False) \<Longrightarrow> length r < length f" for l r
    by (induction f arbitrary: l r) (auto split: if_splits prod.splits)
  moreover from 2 have "getline f = (line, rest, False)"
    by (metis prod.collapse prod.inject)
  ultimately have "length rest < length f"
    by blast
  then show ?case
    by simp
qed

declare load_loop.simps [simp del]

text \<open>The argument is the content of the file at \<open>path\<close>, or \<open>None\<close> if it cannot be opened.\<close>

definition load_word_db :: "string option \<Rightarrow> error + WordDB" where
  "load_word_db file =
     (case file of
        None \<Rightarrow> Inl ProcessExit
      | Some f \<Rightarrow> Inr (load_loop f (replicate (MAX_NICKNAME_LEN + 1) [])))"

text \<open>
  The invariant of the corpus: every word stored in bucket \<open>L\<close> has length \<open>L\<close>.
\<close>

definition bucket_invariant :: "WordDB \<Rightarrow> bool" where
  "bucket_invariant word_db =
     (\<forall>(L, bucket) \<in> set (enumerate 0 word_db). \<forall>w \<in> set bucket. length w = L)"

text \<open>A corpus all of whose words consist of ASCII letters and digits.\<close>

definition alnum_corpus :: "WordDB \<Rightarrow> bool" where
  "alnum_corpus word_db = (\<forall>bucket \<in> set word_db. \<forall>w \<in> set bucket. \<forall>c \<in> set w. is_alnum c)"

text \<open>
  For statements about \<open>load_word_db\<close>: the file that consists of the given lines, each
  followed by a newline, and an entry without its first and its last character.
\<close>

definition file_of_lines :: "string list \<Rightarrow> string" where
  "file_of_lines ls = concat (map (\<lambda>l. l @ [CHR 0x0A]) ls)"

definition strip_delimiters :: "string \<Rightarrow> string" where
  "strip_delimiters l = butlast (tl l)"

text \<open>
  A corpus of thirteen buckets whose only word is the eight-letter word of the
  specification's end-to-end scenario.
\<close>

definition mangrove_corpus :: WordDB where
  "mangrove_corpus = [[], [], [], [], [], [], [], [], [''mangrove''], [], [], [], []]"

section \<open>Sampling a word\<close>

text \<open>
  The loop \<^verbatim>\<open>while (it->size() <= idx) idx -= (it++)->size();\<close> followed by
  \<^verbatim>\<open>it->at(idx)\<close>, on the buckets from \<open>it\<close> to the end of the corpus. Dereferencing the
  end iterator is undefined.
\<close>

fun walk :: "string list list \<Rightarrow> nat \<Rightarrow> error + string" where
  "walk [] idx = Inl UndefinedBehaviour"
| "walk (b # bs) idx = (if length b \<le> idx then walk bs (idx - length b) else Inr (b ! idx))"

text \<open>
  \<^verbatim>\<open>std::reduce\<close> over the \<open>max_len - min_len + 1\<close> buckets starting at \<open>min_len\<close>. In
  \<^verbatim>\<open>std::size_t\<close> arithmetic \<open>max_len - min_len + 1\<close> is \<open>max_len + 1 - min_len\<close> whenever
  \<open>min_len \<le> max_len + 1\<close>.
\<close>

definition num_candidates :: "WordDB \<Rightarrow> nat \<Rightarrow> nat \<Rightarrow> nat" where
  "num_candidates word_db min_len max_len =
     foldl (\<lambda>total b. total + length b) 0 (take (max_len + 1 - min_len) (drop min_len word_db))"

text \<open>
  The iterator range \<open>[it, it + (max_len - min_len + 1))\<close> has to lie inside the corpus;
  otherwise the behaviour is undefined.
\<close>

definition sample_word :: "engine \<Rightarrow> WordDB \<Rightarrow> nat \<Rightarrow> nat \<Rightarrow> error + string \<times> engine" where
  "sample_word g word_db min_len max_len =
     (if \<not> (min_len \<le> max_len + 1 \<and> max_len + 1 \<le> length word_db) then Inl UndefinedBehaviour
      else if num_candidates word_db min_len max_len = 0 then Inl RuntimeError
      else
        (let (idx, g') = uniform_int_distribution 0 (num_candidates word_db min_len max_len - 1) g
         in case walk (drop min_len word_db) idx of
              Inl e \<Rightarrow> Inl e
            | Inr w \<Rightarrow> Inr (w, g')))"

text \<open>
  The specification's view of the same selection: the eligible buckets flattened into one
  sequence.
\<close>

definition eligible_words :: "WordDB \<Rightarrow> nat \<Rightarrow> nat \<Rightarrow> string list" where
  "eligible_words word_db min_len max_len = concat (map (\<lambda>L. word_db ! L) [min_len..<Suc max_len])"

section \<open>Mangling a sampled word\<close>

text \<open>
  \<^verbatim>\<open>std::round\<close> rounds to the nearest integer, halfway cases away from zero. Values of
  type \<^verbatim>\<open>double\<close> are idealised as real numbers: for the factor \<open>2.7\<close> used by the
  program, \<open>n / 2.7\<close> is never closer than \<open>1 / 54\<close> to a halfway point, so the rounding
  error of the division cannot change the result for any length that fits into memory.
\<close>

definition c_round :: "real \<Rightarrow> int" where
  "c_round x = (if 0 \<le> x then \<lfloor>x + 1 / 2\<rfloor> else - \<lfloor>- x + 1 / 2\<rfloor>)"

text \<open>
  \<^verbatim>\<open>static_cast<i32>(std::round(piece.length() / mangling_factor))\<close>. A division by zero
  yields an infinity or a NaN, and converting a value outside the range of \<^verbatim>\<open>i32\<close> is
  undefined. The loop test \<^verbatim>\<open>0 < magling_magnitude--\<close> decrements the counter once
  more than the loop runs, which must not overflow either.
\<close>

definition mangling_magnitude :: "nat \<Rightarrow> real \<Rightarrow> error + int" where
  "mangling_magnitude len mangling_factor =
     (if mangling_factor = 0 then Inl UndefinedBehaviour
      else
        (let m = c_round (real len / mangling_factor)
         in if - (2 ^ 31) < m \<and> m < 2 ^ 31 then Inr m else Inl UndefinedBehaviour))"

text \<open>
  The loop \<^verbatim>\<open>while (0 < magling_magnitude--)\<close>. Drawing from an empty \<open>indices\<close> vector
  (the range \<open>[0, indices.size() - 1]\<close> wraps around) and swapping out of range is undefined.
\<close>

function mangle_loop :: "int \<Rightarrow> engine \<Rightarrow> string \<Rightarrow> nat list \<Rightarrow> error + string \<times> engine" where
  "mangle_loop magling_magnitude g piece indices =
     (if 0 < magling_magnitude then
        (if indices = [] then Inl UndefinedBehaviour
         else
           (let (idx, g1) = uniform_int_distribution 0 (length indices - 1) g;
                indices1 = indices[idx := last indices, length indices - 1 := indices ! idx];
                idx = last indices1;
                indices2 = butlast indices1;
                (ch, g2) = (if idx = 0 then sample_ascii_lower g1
                            else (let (c, g') = sample_ascii g1 in (tolower c, g')))
            in mangle_loop (magling_magnitude - 1) g2 (piece[idx := ch]) indices2))
      else Inr (piece, g))"
  by pat_completeness auto
termination
  by (relation "measure (\<lambda>(m, g, piece, indices). nat m)") auto

declare mangle_loop.simps [simp del]

text \<open>The part of \<^verbatim>\<open>sample_and_mangle_word\<close> that follows the call of \<^verbatim>\<open>sample_word\<close>.\<close>

definition mangle :: "engine \<Rightarrow> string \<Rightarrow> real \<Rightarrow> error + string \<times> engine" where
  "mangle g piece mangling_factor =
     (case mangling_magnitude (length piece) mangling_factor of
        Inl e \<Rightarrow> Inl e
      | Inr magling_magnitude \<Rightarrow> mangle_loop magling_magnitude g piece [0..<length piece])"

text \<open>
  For statements about \<open>mangle\<close>: the word after single-character replacements
  \<open>(position, character)\<close>, applied from left to right.
\<close>

definition replace_at :: "string \<Rightarrow> (nat \<times> char) list \<Rightarrow> string" where
  "replace_at w ws = foldl (\<lambda>p (i, c). p[i := c]) w ws"

definition sample_and_mangle_word ::
  "engine \<Rightarrow> WordDB \<Rightarrow> nat \<Rightarrow> nat \<Rightarrow> real \<Rightarrow> error + string \<times> engine" where
  "sample_and_mangle_word g word_db min_len max_len mangling_factor =
     (case sample_word g word_db min_len max_len of
        Inl e \<Rightarrow> Inl e
      | Inr (piece, g') \<Rightarrow> mangle g' piece mangling_factor)"

section \<open>Generating a nickname\<close>

record SampleNicknameOpt =
  min_len :: nat
  max_len :: nat
  min_word_len :: nat
  max_word_len :: nat

definition SAMPLE_NICKNAME_OPT :: SampleNicknameOpt where
  "SAMPLE_NICKNAME_OPT = \<lparr>min_len = 8, max_len = 8, min_word_len = 3, max_word_len = 8\<rparr>"

text \<open>The loop \<^verbatim>\<open>for (--chance; 0 < chance; --chance) piece.push_back(sample_ascii(...))\<close>,
  by the number of its iterations.\<close>

fun fill_random :: "nat \<Rightarrow> engine \<Rightarrow> string \<Rightarrow> string \<times> engine" where
  "fill_random 0 g piece = (piece, g)"
| "fill_random (Suc chance) g piece =
     (let (c, g') = sample_ascii g in fill_random chance g' (piece @ [c]))"

text \<open>
  \<^verbatim>\<open>piece[0] = toupper(piece[0])\<close>. For an empty \<^verbatim>\<open>std::string\<close>, \<^verbatim>\<open>piece[0]\<close> is the
  terminating null character, which \<^verbatim>\<open>toupper\<close> leaves as it is: the piece stays empty.
\<close>

definition capitalize :: "string \<Rightarrow> string" where
  "capitalize piece = (if piece = [] then piece else piece[0 := toupper (piece ! 0)])"

text \<open>
  The loop \<^verbatim>\<open>while (0 < chance)\<close> of \<^verbatim>\<open>sample_nickname\<close>. It need not terminate (a word
  piece may be empty), so the result is an option and \<open>None\<close> stands for running forever.
\<close>

partial_function (option) nickname_loop ::
  "engine \<Rightarrow> WordDB \<Rightarrow> SampleNicknameOpt \<Rightarrow> nat \<Rightarrow> string list
     \<Rightarrow> (error + string list \<times> engine) option" where
  "nickname_loop g word_db opt chance pieces =
     (if 0 < chance then
        (if chance < min_word_len opt then
           (let (c, g1) = sample_ascii_lower g;
                (piece, g2) = fill_random (chance - 1) g1 [c]
            in nickname_loop g2 word_db opt 0 (pieces @ [piece]))
         else
           (case sample_and_mangle_word g word_db (min_word_len opt)
                   (min (max_word_len opt) chance) (27 / 10) of
              Inl e \<Rightarrow> Some (Inl e)
            | Inr (piece, g1) \<Rightarrow>
                nickname_loop g1 word_db opt (sz_sub chance (length piece))
                  (pieces @ [capitalize piece])))
      else Some (Inr (pieces, g)))"

text \<open>
  \<^verbatim>\<open>std::shuffle\<close>: for every position \<open>i\<close> from \<open>1\<close> on, the element at \<open>i\<close> is swapped
  with the element at a position drawn from \<open>[0, i]\<close>. The C++ standard leaves the
  algorithm to the library; the properties below only need that the result is a permutation.
\<close>

function shuffle_from :: "nat \<Rightarrow> engine \<Rightarrow> 'a list \<Rightarrow> 'a list \<times> engine" where
  "shuffle_from i g xs =
     (if i < length xs then
        (let (j, g') = uniform_int_distribution 0 i g
         in shuffle_from (i + 1) g' (xs[i := xs ! j, j := xs ! i]))
      else (xs, g))"
  by pat_completeness auto
termination
  by (relation "measure (\<lambda>(i, g, xs). length xs - i)") auto

declare shuffle_from.simps [simp del]

definition shuffle :: "engine \<Rightarrow> 'a list \<Rightarrow> 'a list \<times> engine" where
  "shuffle g xs = shuffle_from 1 g xs"

definition sample_nickname ::
  "engine \<Rightarrow> WordDB \<Rightarrow> SampleNicknameOpt \<Rightarrow> (error + string \<times> engine) option" where
  "sample_nickname g word_db opt =
     (if max_len opt < min_len opt then Some (Inl UndefinedBehaviour)
      else
        (let (chance, g1) = uniform_int_distribution (min_len opt) (max_len opt) g
         in case nickname_loop g1 word_db opt chance [] of
              None \<Rightarrow> None
            | Some (Inl e) \<Rightarrow> Some (Inl e)
            | Some (Inr (pieces, g2)) \<Rightarrow>
                (let (pieces', g3) = shuffle g2 pieces
                 in Some (Inr (foldl (\<lambda>nickname piece. nickname @ piece) [] pieces', g3)))))"

section \<open>The collision experiments\<close>

definition NUM_INITIAL_NICKNAMES :: nat where
  "NUM_INITIAL_NICKNAMES = 10000000"

definition NUM_TRIES :: nat where
  "NUM_TRIES = 50000000"

text \<open>
  The four experiments differ in how a nickname is drawn. A draw takes the state of the
  source of randomness \<open>'g\<close> and returns the nickname and the new state. With a reused
  engine the state is the engine; with a recreated engine the state is the stream of seeds
  that \<^verbatim>\<open>std::random_device\<close> delivers, and the engine built from the seed by the
  constructor \<open>mt\<close> is dropped after the draw.
\<close>

type_synonym 'g draw = "'g \<Rightarrow> (error + string \<times> 'g) option"

definition draw_reuse :: "WordDB \<Rightarrow> engine draw" where
  "draw_reuse word_db g = sample_nickname g word_db SAMPLE_NICKNAME_OPT"

definition draw_recreate :: "(nat \<Rightarrow> engine) \<Rightarrow> WordDB \<Rightarrow> nat stream draw" where
  "draw_recreate mt word_db random_device =
     (case sample_nickname (mt (shd random_device)) word_db SAMPLE_NICKNAME_OPT of
        None \<Rightarrow> None
      | Some (Inl e) \<Rightarrow> Some (Inl e)
      | Some (Inr (nickname, g)) \<Rightarrow> Some (Inr (nickname, stl random_device)))"

text \<open>
  For statements about the experiments: the nicknames of \<open>k\<close> successive draws, in the
  order in which they are drawn.
\<close>

fun draw_many :: "'g draw \<Rightarrow> nat \<Rightarrow> 'g \<Rightarrow> (error + string list \<times> 'g) option" where
  "draw_many draw 0 g = Some (Inr ([], g))"
| "draw_many draw (Suc k) g =
     (case draw g of
        None \<Rightarrow> None
      | Some (Inl e) \<Rightarrow> Some (Inl e)
      | Some (Inr (nickname, g')) \<Rightarrow>
          (case draw_many draw k g' of
             None \<Rightarrow> None
           | Some (Inl e) \<Rightarrow> Some (Inl e)
           | Some (Inr (nicknames, g'')) \<Rightarrow> Some (Inr (nickname # nicknames, g''))))"

text \<open>
  The population loop \<^verbatim>\<open>while (nickname_db.size() < NUM_INITIAL_NICKNAMES)\<close>; it runs
  forever when the draws never produce enough distinct nicknames.
\<close>

partial_function (option) populate ::
  "'g draw \<Rightarrow> nat \<Rightarrow> 'g \<Rightarrow> string set \<Rightarrow> (error + string set \<times> 'g) option" where
  "populate draw n g nickname_db =
     (if card nickname_db < n then
        (case draw g of
           None \<Rightarrow> None
         | Some (Inl e) \<Rightarrow> Some (Inl e)
         | Some (Inr (nickname, g')) \<Rightarrow> populate draw n g' (insert nickname nickname_db))
      else Some (Inr (nickname_db, g)))"

text \<open>
  The trial loop \<^verbatim>\<open>for (auto i = sz(); i < NUM_TRIES; ++i)\<close>. The set is part of the
  state that the loop hands on and returns.
\<close>

function trial_loop ::
  "'g draw \<Rightarrow> nat \<Rightarrow> nat \<Rightarrow> 'g \<Rightarrow> string set \<Rightarrow> nat
     \<Rightarrow> (error + nat \<times> string set \<times> 'g) option" where
  "trial_loop draw n i g nickname_db num_collisions =
     (if i < n then
        (case draw g of
           None \<Rightarrow> None
         | Some (Inl e) \<Rightarrow> Some (Inl e)
         | Some (Inr (nickname, g')) \<Rightarrow>
             trial_loop draw n (i + 1) g' nickname_db
               (if nickname \<in> nickname_db then num_collisions + 1 else num_collisions))
      else Some (Inr (num_collisions, nickname_db, g)))"
  by pat_completeness auto
termination
  by (relation "measure (\<lambda>(draw, n, i, g, nickname_db, num_collisions). n - i)") auto

declare trial_loop.simps [simp del]

text \<open>
  The type \<^verbatim>\<open>double\<close> of the percentage. A finite double is modelled by the real number
  it stands for; \<open>round_double\<close> is the rounding of IEEE 754 binary64 that every
  operation applies to its exact result: to the nearest number with a significand of \<open>53\<close>
  bits, and to the one with an even significand when two are equally near. For \<open>x \<noteq> 0\<close>
  with \<open>2 ^ e \<le> \<bar>x\<bar> < 2 ^ (e + 1)\<close> the doubles around \<open>x\<close> are the multiples of
  \<open>2 ^ (e - 52)\<close>. The exponent is not bounded in the model: overflow, underflow and
  subnormal numbers are left out. They do not occur in the percentage, whose operands are
  sizes below \<open>2 ^ 64\<close>, quotients of such sizes, and \<open>100\<close>. Every operation is taken
  to be evaluated in binary64 itself (\<^verbatim>\<open>FLT_EVAL_METHOD\<close> \<open>0\<close>, as with SSE2 on x86-64),
  not in a wider format.
\<close>

definition round_even :: "real \<Rightarrow> int" where
  "round_even y =
     (let f = \<lfloor>y\<rfloor> in
      if y - of_int f < 1 / 2 then f
      else if 1 / 2 < y - of_int f then f + 1
      else if even f then f else f + 1)"

definition round_double :: "real \<Rightarrow> real" where
  "round_double x =
     (if x = 0 then 0
      else (let e = \<lfloor>log 2 \<bar>x\<bar>\<rfloor>
            in of_int (round_even (x / 2 powi (e - 52))) * 2 powi (e - 52)))"

datatype double = Finite real | PlusInfinity | NaN

text \<open>
  The expression \<^verbatim>\<open>static_cast<double>(num_collisions) / NUM_TRIES * 100\<close>: both sizes
  are converted to \<^verbatim>\<open>double\<close>, the quotient is rounded, and its product with \<open>100\<close> is
  rounded again. Division by zero gives a NaN for \<open>0 / 0\<close> and otherwise infinity, which
  the multiplication keeps.
\<close>

definition percentage :: "nat \<Rightarrow> nat \<Rightarrow> double" where
  "percentage num_collisions num_tries =
     (if num_tries = 0 then (if num_collisions = 0 then NaN else PlusInfinity)
      else Finite (round_double
                     (round_double (round_double (real num_collisions) / round_double (real num_tries))
                        * 100)))"

text \<open>
  The common body of \<^verbatim>\<open>case01\<close> to \<^verbatim>\<open>case04\<close>, with the two constants as parameters.
  The result is the tuple written to \<open>out\<close>.
\<close>

definition run_experiment ::
  "'g draw \<Rightarrow> nat \<Rightarrow> nat \<Rightarrow> 'g \<Rightarrow> (error + nat \<times> nat \<times> double) option" where
  "run_experiment draw num_initial num_tries g =
     (case populate draw num_initial g {} of
        None \<Rightarrow> None
      | Some (Inl e) \<Rightarrow> Some (Inl e)
      | Some (Inr (nickname_db, g1)) \<Rightarrow>
          (case trial_loop draw num_tries 0 g1 nickname_db 0 of
             None \<Rightarrow> None
           | Some (Inl e) \<Rightarrow> Some (Inl e)
           | Some (Inr (num_collisions, nickname_db', g2)) \<Rightarrow>
               Some (Inr (num_tries, num_collisions, percentage num_collisions num_tries))))"

definition case01 ::
  "(nat \<Rightarrow> engine) \<Rightarrow> nat stream \<Rightarrow> WordDB \<Rightarrow> (error + nat \<times> nat \<times> double) option" where
  "case01 mt19937 random_device word_db =
     run_experiment (draw_reuse word_db) NUM_INITIAL_NICKNAMES NUM_TRIES (mt19937 (shd random_device))"

definition case02 ::
  "(nat \<Rightarrow> engine) \<Rightarrow> nat stream \<Rightarrow> WordDB \<Rightarrow> (error + nat \<times> nat \<times> double) option" where
  "case02 mt19937 random_device word_db =
     run_experiment (draw_recreate mt19937 word_db) NUM_INITIAL_NICKNAMES NUM_TRIES random_device"

definition case03 ::
  "(nat \<Rightarrow> engine) \<Rightarrow> nat stream \<Rightarrow> WordDB \<Rightarrow> (error + nat \<times> nat \<times> double) option" where
  "case03 mt19937_64 random_device word_db =
     run_experiment (draw_reuse word_db) NUM_INITIAL_NICKNAMES NUM_TRIES (mt19937_64 (shd random_device))"

definition case04 ::
  "(nat \<Rightarrow> engine) \<Rightarrow> nat stream \<Rightarrow> WordDB \<Rightarrow> (error + nat \<times> nat \<times> double) option" where
  "case04 mt19937_64 random_device word_db =
     run_experiment (draw_recreate mt19937_64 word_db) NUM_INITIAL_NICKNAMES NUM_TRIES random_device"

section \<open>Properties of word sampling\<close>

lemma foldl_add_length:
  "foldl (\<lambda>total b. total + length b) a bs = a + length (concat bs)"
  by (induction bs arbitrary: a) auto

lemma num_candidates_concat:
  "num_candidates db lo hi = length (concat (take (Suc hi - lo) (drop lo db)))"
  by (simp add: num_candidates_def foldl_add_length)

lemma take_drop_map_nth:
  "Suc hi \<le> length db \<Longrightarrow> take (Suc hi - lo) (drop lo db) = map (\<lambda>L. db ! L) [lo..<Suc hi]"
  by (rule nth_equalityI) (auto simp del: upt_Suc)

lemma eligible_words_take_drop:
  "Suc hi \<le> length db \<Longrightarrow> eligible_words db lo hi = concat (take (Suc hi - lo) (drop lo db))"
  by (simp only: eligible_words_def take_drop_map_nth)

lemma num_candidates_eligible:
  "Suc hi \<le> length db \<Longrightarrow> num_candidates db lo hi = length (eligible_words db lo hi)"
  by (simp only: num_candidates_concat eligible_words_take_drop)

lemma length_eligible_sum:
  "length (eligible_words db lo hi) = (\<Sum>L = lo..hi. length (db ! L))"
proof -
  have "length (eligible_words db lo hi) = sum_list (map (\<lambda>L. length (db ! L)) [lo..<Suc hi])"
    by (simp add: eligible_words_def length_concat comp_def del: upt_Suc)
  also have "\<dots> = (\<Sum>L = lo..<Suc hi. length (db ! L))"
    by (simp only: interv_sum_list_conv_sum_set_nat set_upt)
  also have "{lo..<Suc hi} = {lo..hi}" by auto
  finally show ?thesis .
qed

lemma walk_concat:
  "idx < length (concat (take n bs)) \<Longrightarrow> walk bs idx = Inr (concat (take n bs) ! idx)"
proof (induction bs idx arbitrary: n rule: walk.induct)
  case (1 idx)
  then show ?case by simp
next
  case (2 b bs idx)
  then show ?case 
    by (cases n) (auto simp: nth_append)
qed

lemma uniform_int_distribution_range:
  assumes "a \<le> b"
  shows "a \<le> fst (uniform_int_distribution a b g) \<and> fst (uniform_int_distribution a b g) \<le> b"
proof -
  have "shd g mod (b - a + 1) < b - a + 1" by simp
  then have "shd g mod (b - a + 1) \<le> b - a" by linarith
  with assms show ?thesis unfolding uniform_int_distribution_def fst_conv by linarith
qed

lemma uniform_int_distribution_below:
  assumes "0 < n"
  shows "fst (uniform_int_distribution 0 (n - 1) g) < n"
proof -
  have "fst (uniform_int_distribution 0 (n - 1) g) \<le> n - 1"
    using uniform_int_distribution_range [of 0 "n - 1" g] by blast
  with assms show ?thesis by linarith
qed

lemma uniform_int_distribution_sconst:
  assumes "i < n"
  shows "uniform_int_distribution 0 (n - 1) (sconst i) = (i, sconst i)"
  using assms by (simp add: uniform_int_distribution_def)

lemma sample_word_flat:
  assumes "lo \<le> Suc hi" "hi < length db" "0 < num_candidates db lo hi"
  shows "sample_word g db lo hi =
     Inr (eligible_words db lo hi ! fst (uniform_int_distribution 0 (num_candidates db lo hi - 1) g),
          snd (uniform_int_distribution 0 (num_candidates db lo hi - 1) g))"
proof -
  let ?n = "num_candidates db lo hi"
  let ?idx = "fst (uniform_int_distribution 0 (?n - 1) g)"
  have "?idx < ?n" using assms(3) by (rule uniform_int_distribution_below)
  then have "?idx < length (concat (take (Suc hi - lo) (drop lo db)))"
    by (simp only: num_candidates_concat)
  then have "walk (drop lo db) ?idx = Inr (concat (take (Suc hi - lo) (drop lo db)) ! ?idx)"
    by (rule walk_concat)
  moreover have "eligible_words db lo hi = concat (take (Suc hi - lo) (drop lo db))"
    using assms(2) by (simp only: eligible_words_take_drop Suc_le_eq)
  ultimately show ?thesis using assms
    by (simp add: sample_word_def case_prod_beta)
qed

text \<open>
  Claim C2. Let \<open>lo..hi\<close> be a range of buckets of the corpus. Then \<open>sample_word\<close>
  raises the runtime error exactly when these buckets hold no word at all. When they hold a
  word, the call returns one of the eligible words (the bucket walk is a total function, so
  it cannot run forever); when they hold none, the call returns no value.
\<close>

theorem sample_word_domain_error:
  assumes "lo \<le> Suc hi" and "hi < length word_db"
  shows "(sample_word g word_db lo hi = Inl RuntimeError
            \<longleftrightarrow> (\<Sum>L = lo..hi. length (word_db ! L)) = 0)
       \<and> (0 < (\<Sum>L = lo..hi. length (word_db ! L))
            \<longrightarrow> (\<exists>w g'. sample_word g word_db lo hi = Inr (w, g')
                   \<and> w \<in> set (eligible_words word_db lo hi)))
       \<and> ((\<Sum>L = lo..hi. length (word_db ! L)) = 0
            \<longrightarrow> (\<forall>w g'. sample_word g word_db lo hi \<noteq> Inr (w, g')))"
proof -
  define n where "n = num_candidates word_db lo hi"
  define total where "total = (\<Sum>L = lo..hi. length (word_db ! L))"
  have len: "n = length (eligible_words word_db lo hi)"
    unfolding n_def using assms(2) by (simp only: num_candidates_eligible Suc_le_eq)
  have n: "n = total"
    unfolding total_def len by (rule length_eligible_sum)
  have zero: "sample_word g word_db lo hi = Inl RuntimeError" if "n = 0"
    using that assms by (simp add: sample_word_def n_def)
  have pos: "\<exists>w g'. sample_word g word_db lo hi = Inr (w, g')
                   \<and> w \<in> set (eligible_words word_db lo hi)" if "0 < n"
  proof -
    have "fst (uniform_int_distribution 0 (n - 1) g) < n"
      using that by (rule uniform_int_distribution_below)
    then have "eligible_words word_db lo hi ! fst (uniform_int_distribution 0 (n - 1) g)
                 \<in> set (eligible_words word_db lo hi)"
      unfolding len by (rule nth_mem)
    moreover have "sample_word g word_db lo hi =
        Inr (eligible_words word_db lo hi ! fst (uniform_int_distribution 0 (n - 1) g),
             snd (uniform_int_distribution 0 (n - 1) g))"
      unfolding n_def using assms that [unfolded n_def] by (rule sample_word_flat)
    ultimately show ?thesis by blast
  qed
  have "(sample_word g word_db lo hi = Inl RuntimeError \<longleftrightarrow> n = 0)
       \<and> (0 < n \<longrightarrow> (\<exists>w g'. sample_word g word_db lo hi = Inr (w, g')
                   \<and> w \<in> set (eligible_words word_db lo hi)))
       \<and> (n = 0 \<longrightarrow> (\<forall>w g'. sample_word g word_db lo hi \<noteq> Inr (w, g')))"
  proof (cases "n = 0")
    case True
    with zero show ?thesis by simp
  next
    case False
    then have "0 < n" by simp
    from pos [OF this] False show ?thesis by auto
  qed
  then show ?thesis unfolding n total_def .
qed

theorem sample_word_domain_error_witness:
  "(1::nat) \<le> Suc 2 \<and> (2::nat) < length [[], [''a''], [''bc'', ''de'']]
     \<and> sample_word (sconst 4) [[], [''a''], [''bc'', ''de'']] 1 2 \<noteq> Inl RuntimeError
     \<and> (\<exists>w g'. sample_word (sconst 4) [[], [''a''], [''bc'', ''de'']] 1 2 = Inr (w, g')
           \<and> w \<in> set (eligible_words [[], [''a''], [''bc'', ''de'']] 1 2))
     \<and> sample_word (sconst 4) [[], [''a''], [''bc'', ''de'']] 1 2 = Inr (''bc'', sconst 4)
     \<and> sample_word (sconst 4) [[], [], []] 1 2 = Inl RuntimeError"
proof -
  have total: "(\<Sum>L = 1..2. length ([[], [''a''], [''bc'', ''de'']] ! L)) = 3"
    by code_simp
  have empty: "(\<Sum>L = 1..2. length ([[], [], []] ! L)) = 0"
    by code_simp
  have a: "(1::nat) \<le> Suc 2" and b: "(2::nat) < length [[], [''a''], [''bc'', ''de'']]"
    and c: "(2::nat) < length [[], [], []]"
    by simp_all
  have run: "sample_word (sconst 4) [[], [''a''], [''bc'', ''de'']] 1 2 = Inr (''bc'', sconst 4)"
    by (simp add: sample_word_def num_candidates_def uniform_int_distribution_def)
  from sample_word_domain_error [OF a b, of "sconst 4"] sample_word_domain_error [OF a c, of "sconst 4"]
  show ?thesis
    unfolding total empty using a b run by simp
qed

text \<open>
  Claim C4. For a range \<open>lo..hi\<close> of buckets of the corpus, the subtraction walk
  started at bucket \<open>lo\<close> with an index \<open>i\<close> below the number of candidates returns the
  \<open>i\<close>-th word of the concatenation of the buckets \<open>lo, ..., hi\<close>; the number of
  candidates is the length of that concatenation; and \<open>sample_word\<close> returns the word of the
  concatenation at the index it draws from \<open>[0, num_candidates - 1]\<close>. The index determines
  the word alone, whatever bucket the word lies in, and every index below the number of
  candidates is drawn from some engine.
\<close>

theorem sample_word_flat_index:
  assumes "lo \<le> Suc hi" and "hi < length word_db"
  shows "num_candidates word_db lo hi = length (eligible_words word_db lo hi)
       \<and> (\<forall>i. i < num_candidates word_db lo hi \<longrightarrow>
              walk (drop lo word_db) i = Inr (eligible_words word_db lo hi ! i))
       \<and> (0 < num_candidates word_db lo hi \<longrightarrow>
            fst (uniform_int_distribution 0 (num_candidates word_db lo hi - 1) g)
              < num_candidates word_db lo hi
            \<and> sample_word g word_db lo hi =
                Inr (eligible_words word_db lo hi !
                       fst (uniform_int_distribution 0 (num_candidates word_db lo hi - 1) g),
                     snd (uniform_int_distribution 0 (num_candidates word_db lo hi - 1) g)))
       \<and> (\<forall>i. i < num_candidates word_db lo hi \<longrightarrow>
              (\<exists>g0. sample_word g0 word_db lo hi = Inr (eligible_words word_db lo hi ! i, stl g0)))"
proof (intro conjI allI impI)
  show "\<exists>g0. sample_word g0 word_db lo hi = Inr (eligible_words word_db lo hi ! i, stl g0)"
    if "i < num_candidates word_db lo hi" for i
  proof -
    from that have pos: "0 < num_candidates word_db lo hi"
      by simp
    from sample_word_flat [OF assms pos, of "sconst i"] uniform_int_distribution_sconst [OF that]
    have "sample_word (sconst i) word_db lo hi
        = Inr (eligible_words word_db lo hi ! i, stl (sconst i))"
      by simp
    then show ?thesis
      by blast
  qed
  show len: "num_candidates word_db lo hi = length (eligible_words word_db lo hi)"
    using assms(2) by (simp only: num_candidates_eligible Suc_le_eq)
  show "walk (drop lo word_db) i = Inr (eligible_words word_db lo hi ! i)"
    if "i < num_candidates word_db lo hi" for i
  proof -
    have flat: "eligible_words word_db lo hi =
        concat (take (Suc hi - lo) (drop lo word_db))"
      using assms(2) by (simp only: eligible_words_take_drop Suc_le_eq)
    from that have "i < length (concat (take (Suc hi - lo) (drop lo word_db)))"
      by (simp only: len flat)
    then show ?thesis
      unfolding flat by (rule walk_concat)
  qed
  show "fst (uniform_int_distribution 0 (num_candidates word_db lo hi - 1) g)
          < num_candidates word_db lo hi"
    if "0 < num_candidates word_db lo hi"
    using that by (rule uniform_int_distribution_below)
  show "sample_word g word_db lo hi =
      Inr (eligible_words word_db lo hi !
             fst (uniform_int_distribution 0 (num_candidates word_db lo hi - 1) g),
           snd (uniform_int_distribution 0 (num_candidates word_db lo hi - 1) g))"
    if "0 < num_candidates word_db lo hi"
    using assms that by (rule sample_word_flat)
qed

theorem sample_word_flat_index_witness:
  "(1::nat) \<le> Suc 2 \<and> (2::nat) < length [[], [''a''], [''bc'', ''de'']]
     \<and> num_candidates [[], [''a''], [''bc'', ''de'']] 1 2 = 3
     \<and> eligible_words [[], [''a''], [''bc'', ''de'']] 1 2 = [''a'', ''bc'', ''de'']
     \<and> walk (drop 1 [[], [''a''], [''bc'', ''de'']]) 0 = Inr ([''a'', ''bc'', ''de''] ! 0)
     \<and> walk (drop 1 [[], [''a''], [''bc'', ''de'']]) 1 = Inr ([''a'', ''bc'', ''de''] ! 1)
     \<and> walk (drop 1 [[], [''a''], [''bc'', ''de'']]) 2 = Inr ([''a'', ''bc'', ''de''] ! 2)
     \<and> sample_word (sconst 5) [[], [''a''], [''bc'', ''de'']] 1 2 = Inr (''de'', sconst 5)"
proof -
  have a: "(1::nat) \<le> Suc 2" and b: "(2::nat) < length [[], [''a''], [''bc'', ''de'']]"
    by simp_all
  have n: "num_candidates [[], [''a''], [''bc'', ''de'']] 1 2 = 3"
    by (simp add: num_candidates_def)
  have e: "eligible_words [[], [''a''], [''bc'', ''de'']] 1 2 = [''a'', ''bc'', ''de'']"
    by (simp add: eligible_words_def upt_rec)
  have d: "fst (uniform_int_distribution 0 (3 - 1) (sconst 5)) = 2"
    "snd (uniform_int_distribution 0 (3 - 1) (sconst 5)) = sconst 5"
    by (simp_all add: uniform_int_distribution_def)
  from sample_word_flat_index [OF a b, of "sconst 5"]
  show ?thesis
    unfolding n e d using a b by simp
qed

section \<open>Properties of characters and of mangling\<close>

lemma c_round_27_10: "c_round (real n / (27 / 10)) = (20 * int n + 27) div 54"
proof -
  have "real n / (27 / 10) + 1 / 2 = real_of_int (20 * int n + 27) / real_of_int 54"
    by simp
  then have "\<lfloor>real n / (27 / 10) + 1 / 2\<rfloor> = (20 * int n + 27) div 54"
    by (simp only: floor_divide_of_int_eq)
  then show ?thesis by (simp add: c_round_def)
qed

lemma mangling_magnitude_27_10:
  assumes "n < 2 ^ 32"
  shows "mangling_magnitude n (27 / 10) = Inr ((20 * int n + 27) div 54)"
proof -
  from assms have "int n < 4294967296" by simp
  then have "- (2 ^ 31) < (20 * int n + 27) div 54 \<and> (20 * int n + 27) div 54 < 2 ^ 31"
    by simp linarith
  then show ?thesis
    unfolding mangling_magnitude_def c_round_27_10 Let_def by simp
qed

lemma magnitude_27_10_le: "nat ((20 * int n + 27) div 54) \<le> n"
  by linarith

lemma sample_ascii_lower_is_lower: "is_lower (fst (sample_ascii_lower g))"
proof -
  have "97 \<le> fst (uniform_int_distribution 97 122 g) \<and> fst (uniform_int_distribution 97 122 g) \<le> 122"
    by (rule uniform_int_distribution_range) simp
  then show ?thesis
    by (simp add: sample_ascii_lower_def is_lower_def case_prod_beta)
qed

lemma sample_ascii_is_alnum: "is_alnum (fst (sample_ascii g))"
proof -
  define ch where "ch = fst (uniform_int_distribution 0 61 g)"
  have "0 \<le> ch \<and> ch \<le> 61"
    unfolding ch_def by (rule uniform_int_distribution_range) simp
  then show ?thesis
    by (auto simp add: sample_ascii_def is_alnum_def is_digit_def is_upper_def is_lower_def
        case_prod_beta NUM_DIGITS_def NUM_ALPHAS_def Let_def ch_def [symmetric])
qed

lemma length_replace_at: "length (replace_at w ws) = length w"
  unfolding replace_at_def by (induction ws arbitrary: w) (auto simp: case_prod_beta)

lemma swap_pop:
  assumes ne: "indices \<noteq> []" and j: "j < length indices" and d: "distinct indices"
  defines "xs \<equiv> indices[j := last indices, length indices - 1 := indices ! j]"
  shows "last xs = indices ! j"
    and "distinct (butlast xs)"
    and "set (butlast xs) = set indices - {indices ! j}"
    and "length (butlast xs) = length indices - 1"
proof -
  let ?n = "length indices"
  from ne have n: "?n - 1 < ?n" by simp
  have xs_ne: "xs \<noteq> []" using ne by (simp add: xs_def)
  have len: "length xs = ?n" by (simp add: xs_def)
  show l: "last xs = indices ! j"
    using n by (simp add: last_conv_nth [OF xs_ne] len) (simp add: xs_def)
  have xs: "xs = indices[j := indices ! (?n - 1), ?n - 1 := indices ! j]"
    by (simp add: xs_def last_conv_nth [OF ne])
  have s: "set xs = set indices" unfolding xs using j n by (rule set_swap)
  have dx: "distinct xs" unfolding xs using j n d by (simp only: distinct_swap)
  then show "distinct (butlast xs)" by (rule distinct_butlast)
  have split: "xs = butlast xs @ [last xs]" using xs_ne by simp
  from dx split have "last xs \<notin> set (butlast xs)"
    by (metis distinct_append distinct.simps(2) disjoint_iff list.set_intros(1))
  moreover have "set xs = set (butlast xs) \<union> {last xs}"
    by (subst split) simp
  ultimately show "set (butlast xs) = set indices - {indices ! j}"
    using s l by auto
  show "length (butlast xs) = length indices - 1" by (simp add: len)
qed

lemma mangle_loop_trace:
  assumes "distinct indices" and "set indices \<subseteq> {..<length piece}" and "nat m \<le> length indices"
  shows "\<exists>ws g'. mangle_loop m g piece indices = Inr (replace_at piece ws, g')
           \<and> length ws = nat m \<and> distinct (map fst ws) \<and> fst ` set ws \<subseteq> set indices
           \<and> (\<forall>(i, c) \<in> set ws. (i = 0 \<longrightarrow> is_lower c) \<and> (i \<noteq> 0 \<longrightarrow> (\<exists>a. is_alnum a \<and> c = tolower a)))"
  using assms
proof (induction k \<equiv> "nat m" arbitrary: m g piece indices)
  case 0
  then have "mangle_loop m g piece indices = Inr (replace_at piece [], g)"
    by (subst mangle_loop.simps) (simp add: replace_at_def)
  with 0 show ?case by (intro exI [of _ "[]"] exI [of _ g]) simp
next
  case (Suc k)
  from Suc.hyps(2) have m: "0 < m" "k = nat (m - 1)" by linarith+
  from Suc.hyps(2) Suc.prems(3) have ne: "indices \<noteq> []" by auto
  define j where "j = fst (uniform_int_distribution 0 (length indices - 1) g)"
  define g1 where "g1 = snd (uniform_int_distribution 0 (length indices - 1) g)"
  define xs where "xs = indices[j := last indices, length indices - 1 := indices ! j]"
  define idx where "idx = last xs"
  define r where "r = (if idx = 0 then sample_ascii_lower g1
                       else (let (c, g') = sample_ascii g1 in (tolower c, g')))"
  define ch where "ch = fst r"
  define g2 where "g2 = snd r"
  have j: "j < length indices"
    using uniform_int_distribution_range [of 0 "length indices - 1" g] ne
    unfolding j_def by (cases indices) auto
  note sp = swap_pop [OF ne j Suc.prems(1), folded xs_def]
  have idx: "idx = indices ! j" unfolding idx_def by (rule sp(1))
  have step: "mangle_loop m g piece indices = mangle_loop (m - 1) g2 (piece[idx := ch]) (butlast xs)"
    using m(1) ne
    by (subst mangle_loop.simps)
      (simp add: Let_def case_prod_beta j_def g1_def xs_def idx_def r_def ch_def g2_def)
  have pre: "distinct (butlast xs)" "set (butlast xs) \<subseteq> {..<length (piece[idx := ch])}"
    "nat (m - 1) \<le> length (butlast xs)"
    using sp Suc.prems Suc.hyps(2) by auto
  from Suc.hyps(1) [OF m(2) pre, of g2] obtain ws g' where
    ih: "mangle_loop (m - 1) g2 (piece[idx := ch]) (butlast xs) = Inr (replace_at (piece[idx := ch]) ws, g')"
      "length ws = nat (m - 1)" "distinct (map fst ws)" "fst ` set ws \<subseteq> set (butlast xs)"
      "\<forall>(i, c) \<in> set ws. (i = 0 \<longrightarrow> is_lower c) \<and> (i \<noteq> 0 \<longrightarrow> (\<exists>a. is_alnum a \<and> c = tolower a))"
    by blast
  have chr: "(idx = 0 \<longrightarrow> is_lower ch) \<and> (idx \<noteq> 0 \<longrightarrow> (\<exists>a. is_alnum a \<and> ch = tolower a))"
    unfolding ch_def r_def
    using sample_ascii_lower_is_lower [of g1] sample_ascii_is_alnum [of g1]
    by (auto simp: case_prod_beta)
  let ?ws = "(idx, ch) # ws"
  have "mangle_loop m g piece indices = Inr (replace_at piece ?ws, g')"
    unfolding step ih(1) by (simp add: replace_at_def)
  moreover have "length ?ws = nat m" using ih(2) m by simp
  moreover have "distinct (map fst ?ws)" using ih(3,4) sp(3) idx by auto
  moreover have "fst ` set ?ws \<subseteq> set indices" using ih(4) sp(3) idx j by auto
  moreover have "\<forall>(i, c) \<in> set ?ws. (i = 0 \<longrightarrow> is_lower c) \<and> (i \<noteq> 0 \<longrightarrow> (\<exists>a. is_alnum a \<and> c = tolower a))"
    using ih(5) chr by simp
  ultimately show ?case by blast
qed

lemma c_round_range:
  assumes "1 \<le> mf"
  shows "0 \<le> c_round (real n / mf) \<and> c_round (real n / mf) \<le> int n"
proof -
  from assms have pos: "0 < mf" by simp
  then have x0: "0 \<le> real n / mf" by simp
  have "real n / mf \<le> real n / 1"
    using assms by (intro divide_left_mono) simp_all
  then have "real n / mf + 1 / 2 < of_int (int n + 1)" by simp
  then have "\<lfloor>real n / mf + 1 / 2\<rfloor> < int n + 1" by (simp only: floor_less_iff)
  moreover from x0 have "0 \<le> \<lfloor>real n / mf + 1 / 2\<rfloor>" by simp
  ultimately show ?thesis using x0 by (simp add: c_round_def)
qed

lemma mangle_Inr:
  assumes "1 \<le> mf" and "length w < 2 ^ 31"
  shows "\<exists>ws g'. mangle g w mf = Inr (replace_at w ws, g')
           \<and> int (length ws) = c_round (real (length w) / mf)
           \<and> length ws \<le> length w
           \<and> distinct (map fst ws)
           \<and> (\<forall>(i, c) \<in> set ws. i < length w \<and> (i = 0 \<longrightarrow> is_lower c)
                  \<and> (i \<noteq> 0 \<longrightarrow> (\<exists>a. is_alnum a \<and> c = tolower a)))"
proof -
  define m where "m = c_round (real (length w) / mf)"
  from c_round_range [OF assms(1), of "length w"] have m: "0 \<le> m" "m \<le> int (length w)"
    by (simp_all add: m_def)
  from assms(2) have "int (length w) < 2 ^ 31" by simp
  with m have "- (2 ^ 31) < m \<and> m < 2 ^ 31" by simp
  with assms(1) have mag: "mangling_magnitude (length w) mf = Inr m"
    by (simp add: mangling_magnitude_def m_def [symmetric])
  from m have le: "nat m \<le> length [0..<length w]" by simp
  have "distinct [0..<length w]" and "set [0..<length w] \<subseteq> {..<length w}"
    by auto
  from mangle_loop_trace [OF this le, of g] obtain ws g' where
    run: "mangle_loop m g w [0..<length w] = Inr (replace_at w ws, g')"
    and len: "length ws = nat m" and d: "distinct (map fst ws)"
    and sub: "fst ` set ws \<subseteq> set [0..<length w]"
    and chars: "\<forall>(i, c) \<in> set ws. (i = 0 \<longrightarrow> is_lower c) \<and> (i \<noteq> 0 \<longrightarrow> (\<exists>a. is_alnum a \<and> c = tolower a))"
    by blast
  have "mangle g w mf = Inr (replace_at w ws, g')"
    unfolding mangle_def mag using run by simp
  moreover have "int (length ws) = c_round (real (length w) / mf)"
    using len m by (simp add: m_def)
  moreover have "length ws \<le> length w" using le len by simp
  moreover have "\<forall>(i, c) \<in> set ws. i < length w \<and> (i = 0 \<longrightarrow> is_lower c)
                  \<and> (i \<noteq> 0 \<longrightarrow> (\<exists>a. is_alnum a \<and> c = tolower a))"
    using chars sub by fastforce
  ultimately show ?thesis using d by blast
qed

text \<open>Unfolding rules that evaluate the generator on concrete corpora and engine streams.\<close>

lemmas eval_defs = sample_nickname_def nickname_loop.simps sample_and_mangle_word_def sample_word_def
  num_candidates_def mangle_def mangle_loop.simps uniform_int_distribution_def
  sample_ascii_lower_def sample_ascii_def tolower_def toupper_def capitalize_def sz_sub_def
  NUM_DIGITS_def NUM_ALPHAS_def shuffle_def shuffle_from.simps SAMPLE_NICKNAME_OPT_def
  char_of_def bit_Suc_0_iff upt_rec mangling_magnitude_27_10 mangrove_corpus_def

text \<open>
  Claim C3. For every mangling factor of at least \<open>1\<close> (the program passes \<open>2.7\<close>), every
  word \<open>w\<close> (shorter than \<open>2 ^ 31\<close> characters, so that the number of replacements fits the
  32-bit counter) and every engine stream, the mangling step returns the word after a
  sequence \<open>ws\<close> of single-character replacements. The result has the length of \<open>w\<close>; the
  number of replacements is \<open>round (length w / mangling_factor)\<close> and at most the length of
  \<open>w\<close>; the replaced positions are pairwise distinct positions of \<open>w\<close>; position \<open>0\<close>
  receives a lowercase letter, and every other position the lowercase form of a character
  of the 62-symbol alphabet.
\<close>

theorem mangle_mutates_round_positions:
  assumes "1 \<le> mangling_factor" and "length w < 2 ^ 31"
  shows "\<exists>ws g'. mangle g w mangling_factor = Inr (replace_at w ws, g')
           \<and> length (replace_at w ws) = length w
           \<and> int (length ws) = c_round (real (length w) / mangling_factor)
           \<and> length ws \<le> length w
           \<and> distinct (map fst ws)
           \<and> (\<forall>(i, c) \<in> set ws. i < length w \<and> (i = 0 \<longrightarrow> is_lower c)
                  \<and> (i \<noteq> 0 \<longrightarrow> (\<exists>a. is_alnum a \<and> c = tolower a)))"
  using mangle_Inr [OF assms, of g] length_replace_at [of w] by blast

theorem mangle_mutates_round_positions_witness:
  "(1::real) \<le> 27 / 10 \<and> length ''mangrove'' < (2::nat) ^ 31
     \<and> c_round (real (length ''mangrove'') / (27 / 10)) = 3
     \<and> mangle (sconst 0) ''mangrove'' (27 / 10) = Inr (''aangro00'', sconst 0)
     \<and> (\<exists>ws g'. mangle (sconst 0) ''mangrove'' (27 / 10) = Inr (replace_at ''mangrove'' ws, g')
           \<and> length (replace_at ''mangrove'' ws) = 8 \<and> length ws = 3 \<and> distinct (map fst ws))"
proof -
  have f: "(1::real) \<le> 27 / 10" and l: "length ''mangrove'' < (2::nat) ^ 31"
    by simp_all
  have r: "c_round (real (length ''mangrove'') / (27 / 10)) = 3"
    unfolding c_round_27_10 by simp
  have e: "mangle (sconst 0) ''mangrove'' (27 / 10) = Inr (''aangro00'', sconst 0)"
    by (simp add: eval_defs)
  from mangle_mutates_round_positions [OF f l, of "sconst 0"] obtain ws g' where
    "mangle (sconst 0) ''mangrove'' (27 / 10) = Inr (replace_at ''mangrove'' ws, g')"
    "length (replace_at ''mangrove'' ws) = length ''mangrove''"
    "int (length ws) = c_round (real (length ''mangrove'') / (27 / 10))"
    "distinct (map fst ws)"
    by blast
  then have "mangle (sconst 0) ''mangrove'' (27 / 10) = Inr (replace_at ''mangrove'' ws, g')
      \<and> length (replace_at ''mangrove'' ws) = 8 \<and> length ws = 3 \<and> distinct (map fst ws)"
    unfolding r by simp
  then have "\<exists>ws g'. mangle (sconst 0) ''mangrove'' (27 / 10) = Inr (replace_at ''mangrove'' ws, g')
      \<and> length (replace_at ''mangrove'' ws) = 8 \<and> length ws = 3 \<and> distinct (map fst ws)"
    by blast
  with f l r e show ?thesis
    by blast
qed

section \<open>Properties of nickname generation\<close>

lemma bucket_invariantD:
  "bucket_invariant db \<Longrightarrow> L < length db \<Longrightarrow> w \<in> set (db ! L) \<Longrightarrow> length w = L"
  unfolding bucket_invariant_def by (fastforce simp: in_set_enumerate_eq)

lemma eligible_words_bucket:
  assumes "w \<in> set (eligible_words db lo hi)"
  shows "\<exists>L. lo \<le> L \<and> L \<le> hi \<and> w \<in> set (db ! L)"
  using assms unfolding eligible_words_def by (auto simp del: upt_Suc) 

lemma sample_word_Inr:
  assumes "sample_word g db lo hi = Inr (w, g')"
  shows "lo \<le> Suc hi \<and> hi < length db \<and> w \<in> set (eligible_words db lo hi)"
proof -
  from assms have r: "lo \<le> Suc hi" "hi < length db" and n: "0 < num_candidates db lo hi"
    by (auto simp: sample_word_def split: if_splits)
  have "fst (uniform_int_distribution 0 (num_candidates db lo hi - 1) g) < num_candidates db lo hi"
    using n by (rule uniform_int_distribution_below)
  then have "fst (uniform_int_distribution 0 (num_candidates db lo hi - 1) g)
      < length (eligible_words db lo hi)"
    using r(2) by (simp only: num_candidates_eligible Suc_le_eq)
  then have "eligible_words db lo hi ! fst (uniform_int_distribution 0 (num_candidates db lo hi - 1) g)
      \<in> set (eligible_words db lo hi)"
    by (rule nth_mem)
  with sample_word_flat [OF r n, of g] assms r show ?thesis by simp
qed

lemma is_alnum_lower: "is_lower c \<Longrightarrow> is_alnum c"
  by (simp add: is_alnum_def)

lemma is_alnum_tolower: "is_alnum c \<Longrightarrow> is_alnum (tolower c)"
  by (auto simp: is_alnum_def is_digit_def is_upper_def is_lower_def tolower_def)

lemma is_alnum_toupper: "is_alnum c \<Longrightarrow> is_alnum (toupper c)"
  by (auto simp: is_alnum_def is_digit_def is_upper_def is_lower_def toupper_def)

lemma mangle_loop_result:
  assumes "mangle_loop m g p ix = Inr (p', g')"
  shows "length p' = length p \<and> (\<forall>c \<in> set p'. c \<in> set p \<or> is_alnum c)"
  using assms
proof (induction k \<equiv> "nat m" arbitrary: m g p ix)
  case 0
  then have "mangle_loop m g p ix = Inr (p, g)"
    by (subst mangle_loop.simps) simp
  with 0 show ?case by simp
next
  case (Suc k)
  from Suc.hyps(2) have m: "0 < m" "k = nat (m - 1)" by linarith+
  show ?case
  proof (cases "ix = []")
    case True
    with m Suc.prems show ?thesis by (subst (asm) mangle_loop.simps) simp
  next
    case False
    define j where "j = fst (uniform_int_distribution 0 (length ix - 1) g)"
    define g1 where "g1 = snd (uniform_int_distribution 0 (length ix - 1) g)"
    define xs where "xs = ix[j := last ix, length ix - 1 := ix ! j]"
    define idx where "idx = last xs"
    define r where "r = (if idx = 0 then sample_ascii_lower g1
                         else (let (c, g') = sample_ascii g1 in (tolower c, g')))"
    have step: "mangle_loop m g p ix = mangle_loop (m - 1) (snd r) (p[idx := fst r]) (butlast xs)"
      using m(1) False
      by (subst mangle_loop.simps)
        (simp add: Let_def case_prod_beta j_def g1_def xs_def idx_def r_def)
    have chr: "is_alnum (fst r)"
      unfolding r_def
      using sample_ascii_lower_is_lower [of g1] sample_ascii_is_alnum [of g1]
      by (auto simp: case_prod_beta is_alnum_lower is_alnum_tolower)
    from Suc.prems have "mangle_loop (m - 1) (snd r) (p[idx := fst r]) (butlast xs) = Inr (p', g')"
      by (simp only: step)
    from Suc.hyps(1) [OF m(2) this]
    have "length p' = length p" and "\<forall>c \<in> set p'. c \<in> set (p[idx := fst r]) \<or> is_alnum c"
      by simp_all
    moreover have "set (p[idx := fst r]) \<subseteq> insert (fst r) (set p)"
      by (rule set_update_subset_insert)
    ultimately show ?thesis using chr by auto
  qed
qed

lemma mangle_result:
  assumes "mangle g p mf = Inr (p', g')"
  shows "length p' = length p \<and> (\<forall>c \<in> set p'. c \<in> set p \<or> is_alnum c)"
  using assms unfolding mangle_def
  by (auto split: sum.splits dest: mangle_loop_result)

lemma sample_and_mangle_word_Inr:
  assumes "sample_and_mangle_word g db lo hi mf = Inr (p, g')"
  shows "\<exists>w L. lo \<le> L \<and> L \<le> hi \<and> hi < length db \<and> w \<in> set (db ! L)
           \<and> length p = length w \<and> (\<forall>c \<in> set p. c \<in> set w \<or> is_alnum c)"
proof -
  from assms obtain w g1 where sw: "sample_word g db lo hi = Inr (w, g1)"
    and mg: "mangle g1 w mf = Inr (p, g')"
    unfolding sample_and_mangle_word_def by (auto split: sum.splits)
  from sample_word_Inr [OF sw] eligible_words_bucket [of w db lo hi]
  obtain L where "lo \<le> L" "L \<le> hi" "hi < length db" "w \<in> set (db ! L)" by blast
  with mangle_result [OF mg] show ?thesis by blast
qed

lemma sample_and_mangle_word_length:
  assumes "sample_and_mangle_word g db lo hi mf = Inr (p, g')" and "bucket_invariant db"
  shows "lo \<le> length p \<and> length p \<le> hi"
proof -
  from sample_and_mangle_word_Inr [OF assms(1)] obtain w L where
    *: "lo \<le> L" "L \<le> hi" "hi < length db" "w \<in> set (db ! L)" "length p = length w" by blast
  from bucket_invariantD [OF assms(2) _ *(4)] * have "length w = L" by simp
  with * show ?thesis by simp
qed

lemma sample_and_mangle_word_alnum:
  assumes "sample_and_mangle_word g db lo hi mf = Inr (p, g')" and "alnum_corpus db"
  shows "\<forall>c \<in> set p. is_alnum c"
proof -
  from sample_and_mangle_word_Inr [OF assms(1)] obtain w L where
    *: "hi < length db" "L \<le> hi" "w \<in> set (db ! L)" "\<forall>c \<in> set p. c \<in> set w \<or> is_alnum c" by blast
  then have "db ! L \<in> set db" by simp
  with assms(2) *(3) have "\<forall>c \<in> set w. is_alnum c" unfolding alnum_corpus_def by blast
  with *(4) show ?thesis by blast
qed

lemma fill_random_result:
  "length (fst (fill_random n g p)) = length p + n
     \<and> (\<forall>c \<in> set (fst (fill_random n g p)). c \<in> set p \<or> is_alnum c)"
proof (induction n arbitrary: g p)
  case 0
  show ?case by simp
next
  case (Suc n)
  from Suc [of "snd (sample_ascii g)" "p @ [fst (sample_ascii g)]"] sample_ascii_is_alnum [of g]
  show ?case by (auto simp: case_prod_beta)
qed

lemma length_capitalize: "length (capitalize p) = length p"
  by (simp add: capitalize_def)

lemma set_capitalize: "c \<in> set (capitalize p) \<Longrightarrow> c \<in> set p \<or> (\<exists>a \<in> set p. c = toupper a)"
  unfolding capitalize_def
  by (cases p) (auto split: if_splits)

lemma sz_sub_le: "b \<le> a \<Longrightarrow> sz_sub a b = a - b"
  by (simp add: sz_sub_def)

lemma nickname_loop_sound:
  assumes "nickname_loop g db opt chance pieces = Some y"
  shows "\<forall>ps g'. y = Inr (ps, g') \<longrightarrow>
           (bucket_invariant db \<longrightarrow> length (concat ps) = length (concat pieces) + chance)
         \<and> (alnum_corpus db \<longrightarrow> (\<forall>p \<in> set pieces. \<forall>c \<in> set p. is_alnum c)
               \<longrightarrow> (\<forall>p \<in> set ps. \<forall>c \<in> set p. is_alnum c))"
  using assms
proof (induction g db opt chance pieces y rule: nickname_loop.raw_induct [rotated 1, consumes 1, case_names step])
  case (step f g db opt chance pieces y)
  show ?case
  proof (cases "0 < chance")
    case False
    with step.hyps show ?thesis by auto
  next
    case pos: True
    show ?thesis
    proof (cases "chance < min_word_len opt")
      case True
      define c where "c = fst (sample_ascii_lower g)"
      define g1 where "g1 = snd (sample_ascii_lower g)"
      define piece where "piece = fst (fill_random (chance - 1) g1 [c])"
      define g2 where "g2 = snd (fill_random (chance - 1) g1 [c])"
      from step.hyps pos True have "f g2 db opt 0 (pieces @ [piece]) = Some y"
        by (simp add: case_prod_beta c_def g1_def piece_def g2_def)
      note ih = step.IH [OF this]
      from fill_random_result [of "chance - 1" g1 "[c]"] pos
      have len: "length piece = chance"
        and chars: "\<forall>x \<in> set piece. x = c \<or> is_alnum x"
        by (auto simp: piece_def)
      have "is_alnum c"
        unfolding c_def by (rule is_alnum_lower) (rule sample_ascii_lower_is_lower)
      with chars have "\<forall>x \<in> set piece. is_alnum x" by auto
      with ih len show ?thesis by auto
    next
      case False
      show ?thesis
      proof (cases "sample_and_mangle_word g db (min_word_len opt) (min (max_word_len opt) chance) (27 / 10)")
        case (Inl e)
        with step.hyps pos False show ?thesis by auto
      next
        case (Inr r)
        obtain piece g1 where r: "r = (piece, g1)" by (cases r)
        note sm = Inr [unfolded r]
        from step.hyps pos False sm
        have "f g1 db opt (sz_sub chance (length piece)) (pieces @ [capitalize piece]) = Some y"
          by simp
        note ih = step.IH [OF this]
        have a: "length (concat ps) = length (concat pieces) + chance"
          if "y = Inr (ps, g')" and inv: "bucket_invariant db" for ps g'
        proof -
          from sample_and_mangle_word_length [OF sm inv] have "length piece \<le> chance" by simp
          then have "sz_sub chance (length piece) = chance - length piece"
            by (rule sz_sub_le)
          with ih that \<open>length piece \<le> chance\<close> show ?thesis
            by (simp add: length_capitalize)
        qed
        have b: "\<forall>p \<in> set ps. \<forall>c \<in> set p. is_alnum c"
          if "y = Inr (ps, g')" and ac: "alnum_corpus db"
            and old: "\<forall>p \<in> set pieces. \<forall>c \<in> set p. is_alnum c" for ps g'
        proof -
          from sample_and_mangle_word_alnum [OF sm ac] have "\<forall>c \<in> set piece. is_alnum c" .
          then have "\<forall>c \<in> set (capitalize piece). is_alnum c"
            using set_capitalize [of _ piece] is_alnum_toupper by blast
          with ih that show ?thesis by auto
        qed
        from a b show ?thesis by blast
      qed
    qed
  qed
qed

lemma shuffle_from_mset: "mset (fst (shuffle_from i g xs)) = mset xs"
proof (induction i g xs rule: shuffle_from.induct)
  case (1 i g xs)
  show ?case
  proof (cases "i < length xs")
    case False
    then show ?thesis by (subst shuffle_from.simps) simp
  next
    case True
    define j where "j = fst (uniform_int_distribution 0 i g)"
    define g' where "g' = snd (uniform_int_distribution 0 i g)"
    have "j \<le> i" unfolding j_def using uniform_int_distribution_range [of 0 i g] by simp
    with True have j: "j < length xs" by simp
    have "shuffle_from i g xs = shuffle_from (i + 1) g' (xs[i := xs ! j, j := xs ! i])"
      using True by (subst shuffle_from.simps) (simp add: case_prod_beta j_def g'_def)
    moreover have "mset (fst (shuffle_from (i + 1) g' (xs[i := xs ! j, j := xs ! i])))
        = mset (xs[i := xs ! j, j := xs ! i])"
      using True by (intro "1.IH") (simp_all add: j_def g'_def)
    moreover have "mset (xs[i := xs ! j, j := xs ! i]) = mset xs"
      using True j by (simp add: mset_swap)
    ultimately show ?thesis by simp
  qed
qed

lemma shuffle_mset: "mset (fst (shuffle g xs)) = mset xs"
  unfolding shuffle_def by (rule shuffle_from_mset)

lemma foldl_append_concat: "foldl (\<lambda>nickname piece. nickname @ piece) acc ps = acc @ concat ps"
  by (induction ps arbitrary: acc) auto

lemma length_concat_mset:
  assumes "mset ys = mset xs"
  shows "length (concat ys) = length (concat xs)"
proof -
  have "length (concat zs) = sum_mset (image_mset length (mset zs))" for zs :: "'a list list"
    by (simp add: length_concat sum_mset_sum_list [symmetric] del: sum_mset_sum_list)
  with assms show ?thesis by simp
qed

lemma sample_nickname_Some:
  assumes "sample_nickname g db opt = Some (Inr (s, g'))"
  shows "\<exists>chance g1 ps g2. min_len opt \<le> chance \<and> chance \<le> max_len opt
            \<and> nickname_loop g1 db opt chance [] = Some (Inr (ps, g2))
            \<and> s = concat (fst (shuffle g2 ps))"
proof -
  define chance where "chance = fst (uniform_int_distribution (min_len opt) (max_len opt) g)"
  define g1 where "g1 = snd (uniform_int_distribution (min_len opt) (max_len opt) g)"
  from assms have le: "min_len opt \<le> max_len opt"
    by (auto simp: sample_nickname_def split: if_splits)
  from assms le obtain ps g2 where run: "nickname_loop g1 db opt chance [] = Some (Inr (ps, g2))"
    and s: "s = concat (fst (shuffle g2 ps))"
    by (auto simp: sample_nickname_def case_prod_beta chance_def g1_def foldl_append_concat
        split: option.splits sum.splits)
  from uniform_int_distribution_range [OF le, of g] run s show ?thesis
    unfolding chance_def [symmetric] by blast
qed

text \<open>
  Claim C1. For every engine stream and every corpus that satisfies the bucket invariant:
  if \<open>sample_nickname\<close> returns a nickname, its length lies between \<open>min_len\<close> and \<open>max_len\<close>
  of the options; with the program's options \<open>{8, 8, 3, 8}\<close> the length is \<open>8\<close>.
\<close>

theorem sample_nickname_length:
  assumes "bucket_invariant word_db"
  shows "(sample_nickname g word_db opt = Some (Inr (s, g'))
            \<longrightarrow> min_len opt \<le> length s \<and> length s \<le> max_len opt)
       \<and> (sample_nickname g word_db SAMPLE_NICKNAME_OPT = Some (Inr (s, g')) \<longrightarrow> length s = 8)"
proof -
  have gen: "min_len opt \<le> length s \<and> length s \<le> max_len opt"
    if "sample_nickname g word_db opt = Some (Inr (s, g'))" for opt
  proof -
    from sample_nickname_Some [OF that] obtain chance g1 ps g2 where
      c: "min_len opt \<le> chance" "chance \<le> max_len opt"
      and run: "nickname_loop g1 word_db opt chance [] = Some (Inr (ps, g2))"
      and s: "s = concat (fst (shuffle g2 ps))" by blast
    from nickname_loop_sound [OF run] assms have "length (concat ps) = chance" by simp
    moreover have "length s = length (concat ps)"
      unfolding s by (rule length_concat_mset) (rule shuffle_mset)
    ultimately show ?thesis using c by simp
  qed
  from gen [of opt] gen [of SAMPLE_NICKNAME_OPT] show ?thesis
    by (auto simp add: SAMPLE_NICKNAME_OPT_def)
qed

theorem sample_nickname_length_witness:
  "bucket_invariant mangrove_corpus
     \<and> sample_nickname (sconst 0) mangrove_corpus SAMPLE_NICKNAME_OPT = Some (Inr (''Aangro00'', sconst 0))
     \<and> min_len SAMPLE_NICKNAME_OPT \<le> length ''Aangro00''
     \<and> length ''Aangro00'' \<le> max_len SAMPLE_NICKNAME_OPT
     \<and> length ''Aangro00'' = 8"
proof -
  have inv: "bucket_invariant mangrove_corpus"
    by (simp add: bucket_invariant_def mangrove_corpus_def)
  have run: "sample_nickname (sconst 0) mangrove_corpus SAMPLE_NICKNAME_OPT
      = Some (Inr (''Aangro00'', sconst 0))"
    by (simp add: eval_defs)
  from sample_nickname_length [OF inv, of "sconst 0" SAMPLE_NICKNAME_OPT "''Aangro00''" "sconst 0"]
    inv run
  show ?thesis
    by simp
qed

lemma sample_word_Inl:
  assumes "sample_word g db lo hi = Inl e" and "lo \<le> Suc hi" and "hi < length db"
  shows "e = RuntimeError"
proof (cases "num_candidates db lo hi = 0")
  case True
  with assms show ?thesis by (simp add: sample_word_def)
next
  case False
  then have "0 < num_candidates db lo hi" by simp
  from sample_word_flat [OF assms(2,3) this, of g] assms(1) show ?thesis by simp
qed

lemma sample_and_mangle_word_Inl:
  assumes "sample_and_mangle_word g db lo hi (27 / 10) = Inl e"
    and "lo \<le> Suc hi" and "hi < length db" and "hi < 2 ^ 31" and "bucket_invariant db"
  shows "e = RuntimeError"
proof (cases "sample_word g db lo hi")
  case (Inl e')
  with assms(1) have "e' = e" by (simp add: sample_and_mangle_word_def)
  with Inl assms(2,3) show ?thesis by (auto dest: sample_word_Inl)
next
  case (Inr r)
  obtain w g1 where r: "r = (w, g1)" by (cases r)
  from sample_word_Inr [OF Inr [unfolded r]] eligible_words_bucket [of w db lo hi]
  obtain L where L: "L \<le> hi" "w \<in> set (db ! L)" by blast
  from L(1) assms(3) have "L < length db" by simp
  from bucket_invariantD [OF assms(5) this L(2)] have "length w = L" .
  with L assms(4) have "length w < 2 ^ 31" by simp
  from mangle_Inr [of "27 / 10" w g1] this obtain ws g' where
    "mangle g1 w (27 / 10) = Inr (replace_at w ws, g')"
    by auto
  with Inr r assms(1) show ?thesis by (simp add: sample_and_mangle_word_def)
qed

lemma nickname_loop_terminates:
  assumes "1 \<le> min_word_len opt" and "min_word_len opt \<le> max_word_len opt"
    and "bucket_invariant db"
  shows "\<exists>r. nickname_loop g db opt chance pieces = Some r
           \<and> (min (max_word_len opt) chance < length db \<and> min (max_word_len opt) chance < 2 ^ 31
                \<longrightarrow> r = Inl RuntimeError \<or> (\<exists>ps g'. r = Inr (ps, g')))"
proof (induction chance arbitrary: g pieces rule: less_induct)
  case (less chance)
  show ?case
  proof (cases "0 < chance")
    case False
    then show ?thesis by (subst nickname_loop.simps) simp
  next
    case pos: True
    show ?thesis
    proof (cases "chance < min_word_len opt")
      case True
      define c where "c = fst (sample_ascii_lower g)"
      define g1 where "g1 = snd (sample_ascii_lower g)"
      define piece where "piece = fst (fill_random (chance - 1) g1 [c])"
      define g2 where "g2 = snd (fill_random (chance - 1) g1 [c])"
      have step: "nickname_loop g db opt chance pieces = nickname_loop g2 db opt 0 (pieces @ [piece])"
        using pos True
        by (subst nickname_loop.simps) (simp add: case_prod_beta c_def g1_def piece_def g2_def)
      have "nickname_loop g2 db opt 0 (pieces @ [piece]) = Some (Inr (pieces @ [piece], g2))"
        by (subst nickname_loop.simps) simp
      with step show ?thesis by simp
    next
      case False
      define hi where "hi = min (max_word_len opt) chance"
      from False assms(2) have range: "min_word_len opt \<le> Suc hi" "min_word_len opt \<le> hi"
        by (simp_all add: hi_def)
      show ?thesis
      proof (cases "sample_and_mangle_word g db (min_word_len opt) hi (27 / 10)")
        case (Inl e)
        then have "nickname_loop g db opt chance pieces = Some (Inl e)"
          using pos False by (subst nickname_loop.simps) (simp add: hi_def)
        moreover have "e = RuntimeError" if "hi < length db" "hi < 2 ^ 31"
          using Inl range(1) that assms(3) by (rule sample_and_mangle_word_Inl)
        ultimately show ?thesis by (simp add: hi_def)
      next
        case (Inr r)
        obtain piece g1 where r: "r = (piece, g1)" by (cases r)
        note sm = Inr [unfolded r]
        from sample_and_mangle_word_length [OF sm assms(3)] assms(1)
        have len: "1 \<le> length piece" "length piece \<le> chance"
          by (simp_all add: hi_def)
        then have sub: "sz_sub chance (length piece) = chance - length piece"
          by (simp add: sz_sub_le)
        have step: "nickname_loop g db opt chance pieces =
            nickname_loop g1 db opt (chance - length piece) (pieces @ [capitalize piece])"
          using pos False sm sub by (subst nickname_loop.simps) (simp add: hi_def)
        from len pos have "chance - length piece < chance" by simp
        from less.IH [OF this, of g1 "pieces @ [capitalize piece]"] step
        show ?thesis by (auto simp: min_def split: if_splits)
      qed
    qed
  qed
qed

text \<open>
  Claim C10. Let \<open>1 \<le> min_word_len \<le> max_word_len\<close> and let the corpus satisfy the bucket
  invariant. Then \<open>sample_nickname\<close> terminates for every engine stream: the remaining budget
  decreases in every iteration of its loop, because a random piece uses it up and a word
  piece has at least \<open>min_word_len\<close> characters. Moreover, when the options are well-formed
  for the corpus (\<open>min_len \<le> max_len\<close>, and the longest word length that can be asked for
  is a bucket of the corpus and below \<open>2 ^ 31\<close>), the outcome is a returned nickname or the
  runtime error of \<open>sample_word\<close>.
\<close>

theorem sample_nickname_terminates:
  assumes "1 \<le> min_word_len opt" and "min_word_len opt \<le> max_word_len opt"
    and "bucket_invariant word_db"
  shows "\<exists>r. sample_nickname g word_db opt = Some r
           \<and> (min_len opt \<le> max_len opt
                \<and> min (max_word_len opt) (max_len opt) < length word_db
                \<and> min (max_word_len opt) (max_len opt) < 2 ^ 31
                \<longrightarrow> r = Inl RuntimeError \<or> (\<exists>s g'. r = Inr (s, g')))"
proof (cases "max_len opt < min_len opt")
  case True
  then show ?thesis by (simp add: sample_nickname_def)
next
  case False
  then have le: "min_len opt \<le> max_len opt" by simp
  define chance where "chance = fst (uniform_int_distribution (min_len opt) (max_len opt) g)"
  define g1 where "g1 = snd (uniform_int_distribution (min_len opt) (max_len opt) g)"
  have c: "chance \<le> max_len opt"
    unfolding chance_def using uniform_int_distribution_range [OF le, of g] by simp
  from nickname_loop_terminates [OF assms, of g1 chance "[]"] obtain r where
    run: "nickname_loop g1 word_db opt chance [] = Some r"
    and ok: "min (max_word_len opt) chance < length word_db \<and> min (max_word_len opt) chance < 2 ^ 31
                \<longrightarrow> r = Inl RuntimeError \<or> (\<exists>ps g'. r = Inr (ps, g'))"
    by blast
  have eq: "sample_nickname g word_db opt =
      (case r of Inl e \<Rightarrow> Some (Inl e)
       | Inr (pieces, g2) \<Rightarrow>
           Some (Inr (foldl (\<lambda>nickname piece. nickname @ piece) [] (fst (shuffle g2 pieces)),
                      snd (shuffle g2 pieces))))"
    using False run
    by (simp add: sample_nickname_def case_prod_beta chance_def g1_def split: sum.splits)
  show ?thesis
  proof (cases r)
    case (Inl e)
    have "e = RuntimeError"
      if "min (max_word_len opt) (max_len opt) < length word_db"
        "min (max_word_len opt) (max_len opt) < 2 ^ 31"
      using ok that c Inl by (auto simp: min_def split: if_splits)
    with eq Inl show ?thesis by simp
  next
    case (Inr x)
    with eq show ?thesis by (simp add: case_prod_beta)
  qed
qed

theorem sample_nickname_terminates_witness:
  "1 \<le> min_word_len SAMPLE_NICKNAME_OPT
     \<and> min_word_len SAMPLE_NICKNAME_OPT \<le> max_word_len SAMPLE_NICKNAME_OPT
     \<and> bucket_invariant mangrove_corpus
     \<and> (\<exists>r. sample_nickname (sconst 0) mangrove_corpus SAMPLE_NICKNAME_OPT = Some r
            \<and> (r = Inl RuntimeError \<or> (\<exists>s g'. r = Inr (s, g'))))
     \<and> sample_nickname (sconst 0) mangrove_corpus SAMPLE_NICKNAME_OPT
          = Some (Inr (''Aangro00'', sconst 0))
     \<and> sample_nickname (sconst 0) [[], [], [], [], [], [], [], [], [], [], [], [], []]
          SAMPLE_NICKNAME_OPT = Some (Inl RuntimeError)"
proof -
  have a: "1 \<le> min_word_len SAMPLE_NICKNAME_OPT"
    and b: "min_word_len SAMPLE_NICKNAME_OPT \<le> max_word_len SAMPLE_NICKNAME_OPT"
    by (simp_all add: SAMPLE_NICKNAME_OPT_def)
  have inv: "bucket_invariant mangrove_corpus"
    by (simp add: bucket_invariant_def mangrove_corpus_def)
  have wf: "min_len SAMPLE_NICKNAME_OPT \<le> max_len SAMPLE_NICKNAME_OPT
      \<and> min (max_word_len SAMPLE_NICKNAME_OPT) (max_len SAMPLE_NICKNAME_OPT) < length mangrove_corpus
      \<and> min (max_word_len SAMPLE_NICKNAME_OPT) (max_len SAMPLE_NICKNAME_OPT) < 2 ^ 31"
    by (simp add: SAMPLE_NICKNAME_OPT_def mangrove_corpus_def)
  have run: "sample_nickname (sconst 0) mangrove_corpus SAMPLE_NICKNAME_OPT
      = Some (Inr (''Aangro00'', sconst 0))"
    by (simp add: eval_defs)
  have err: "sample_nickname (sconst 0) [[], [], [], [], [], [], [], [], [], [], [], [], []]
      SAMPLE_NICKNAME_OPT = Some (Inl RuntimeError)"
    by (simp add: eval_defs)
  from sample_nickname_terminates [OF a b inv, of "sconst 0"] wf
  have "\<exists>r. sample_nickname (sconst 0) mangrove_corpus SAMPLE_NICKNAME_OPT = Some r
            \<and> (r = Inl RuntimeError \<or> (\<exists>s g'. r = Inr (s, g')))"
    by blast
  with a b inv run err show ?thesis
    by blast
qed

text \<open>
  Claim C9, as amended. For every corpus whose words consist of ASCII letters and digits
  only, and every engine stream, every character of a nickname returned by
  \<open>sample_nickname\<close> is an ASCII letter or digit.
\<close>

theorem sample_nickname_alnum:
  assumes "alnum_corpus word_db" and "sample_nickname g word_db opt = Some (Inr (s, g'))"
  shows "\<forall>c \<in> set s. is_alnum c"
proof -
  from sample_nickname_Some [OF assms(2)] obtain chance g1 ps g2 where
    run: "nickname_loop g1 word_db opt chance [] = Some (Inr (ps, g2))"
    and s: "s = concat (fst (shuffle g2 ps))" by blast
  from nickname_loop_sound [OF run] assms(1) have "\<forall>p \<in> set ps. \<forall>c \<in> set p. is_alnum c"
    by simp
  moreover have "set (fst (shuffle g2 ps)) = set ps"
    using shuffle_mset [of g2 ps] by (rule mset_eq_setD)
  ultimately show ?thesis unfolding s by auto
qed

theorem sample_nickname_alnum_witness:
  "alnum_corpus mangrove_corpus
     \<and> sample_nickname (sconst 0) mangrove_corpus SAMPLE_NICKNAME_OPT
          = Some (Inr (''Aangro00'', sconst 0))
     \<and> list_all is_alnum ''Aangro00''"
proof -
  have ac: "alnum_corpus mangrove_corpus"
    by (simp add: alnum_corpus_def mangrove_corpus_def is_alnum_def is_digit_def is_upper_def
        is_lower_def)
  have run: "sample_nickname (sconst 0) mangrove_corpus SAMPLE_NICKNAME_OPT
      = Some (Inr (''Aangro00'', sconst 0))"
    by (simp add: eval_defs)
  from sample_nickname_alnum [OF ac run] have "list_all is_alnum ''Aangro00''"
    unfolding list_all_iff .
  with ac run show ?thesis
    by blast
qed

text \<open>
  Claim C9, as stated, fails: the characters that mangling leaves alone are those of the
  corpus word, whatever they are. A corpus with the word \<open>co-pilot\<close> satisfies the bucket
  invariant and yields a nickname with a hyphen.
\<close>

theorem sample_nickname_alnum_counterexample:
  "bucket_invariant [[], [], [], [], [], [], [], [], [''co-pilot''], [], [], [], []]
     \<and> sample_nickname (sconst 0) [[], [], [], [], [], [], [], [], [''co-pilot''], [], [], [], []]
          SAMPLE_NICKNAME_OPT = Some (Inr (''Ao-pil00'', sconst 0))
     \<and> CHR ''-'' \<in> set ''Ao-pil00''
     \<and> \<not> is_alnum CHR ''-''"
proof -
  have "bucket_invariant [[], [], [], [], [], [], [], [], [''co-pilot''], [], [], [], []]"
    by (simp add: bucket_invariant_def)
  moreover have "sample_nickname (sconst 0)
      [[], [], [], [], [], [], [], [], [''co-pilot''], [], [], [], []] SAMPLE_NICKNAME_OPT
      = Some (Inr (''Ao-pil00'', sconst 0))"
    by (simp add: eval_defs)
  moreover have "CHR ''-'' \<in> set ''Ao-pil00''"
    by simp
  moreover have "\<not> is_alnum CHR ''-''"
    by (simp add: is_alnum_def is_digit_def is_upper_def is_lower_def)
  ultimately show ?thesis
    by blast
qed

section \<open>Properties of the rounding of doubles\<close>

lemma round_even_of_int: "round_even (of_int k) = k"
  by (simp add: round_even_def)

lemma round_even_bounds: "\<lfloor>y\<rfloor> \<le> round_even y \<and> round_even y \<le> \<lfloor>y\<rfloor> + 1"
  by (simp add: round_even_def Let_def)

lemma round_even_mono:
  assumes "y \<le> z"
  shows "round_even y \<le> round_even z"
proof (cases "\<lfloor>y\<rfloor> = \<lfloor>z\<rfloor>")
  case True
  with assms show ?thesis
    by (auto simp: round_even_def Let_def)
next
  case False
  with assms have "\<lfloor>y\<rfloor> < \<lfloor>z\<rfloor>"
    using floor_mono [of y z] by linarith
  with round_even_bounds [of y] round_even_bounds [of z] show ?thesis
    by linarith
qed

lemma round_even_error: "\<bar>of_int (round_even y) - y\<bar> \<le> 1 / 2"
proof -
  have "of_int \<lfloor>y\<rfloor> \<le> y" "y < of_int \<lfloor>y\<rfloor> + 1"
    by linarith+
  then show ?thesis
    by (auto simp: round_even_def Let_def)
qed

lemma two_powr_int: "(2::real) powr real_of_int k = 2 powi k"
  by (simp add: powr_real_of_int power_int_def power_one_over inverse_eq_divide)

lemma exponent_bracket:
  assumes "0 < x"
  shows "2 powi \<lfloor>log 2 x\<rfloor> \<le> x \<and> x < 2 powi (\<lfloor>log 2 x\<rfloor> + 1)"
proof -
  have "\<lfloor>log 2 x\<rfloor> = \<lfloor>log 2 x\<rfloor>" ..
  with assms have "2 powr real_of_int \<lfloor>log 2 x\<rfloor> \<le> x \<and> x < 2 powr real_of_int (\<lfloor>log 2 x\<rfloor> + 1)"
    by (subst (asm) floor_log_eq_powr_iff) simp_all
  then show ?thesis
    by (simp only: two_powr_int)
qed

lemma exponent_eq:
  assumes "0 < x" and "2 powi e \<le> x" and "x < 2 powi (e + 1)"
  shows "\<lfloor>log 2 x\<rfloor> = e"
proof -
  from assms(2,3) have "2 powr real_of_int e \<le> x \<and> x < 2 powr real_of_int (e + 1)"
    by (simp only: two_powr_int)
  with assms(1) show ?thesis
    by (subst floor_log_eq_powr_iff) simp_all
qed

lemma round_double_eval:
  assumes "0 < x" and "2 powi e \<le> x" and "x < 2 powi (e + 1)"
  shows "round_double x = of_int (round_even (x / 2 powi (e - 52))) * 2 powi (e - 52)"
  using assms(1) exponent_eq [OF assms] by (simp add: round_double_def)

lemma scaled_bounds:
  fixes x :: real
  assumes "2 powi e \<le> x" and "x < 2 powi (e + 1)"
  shows "2 ^ 52 \<le> x / 2 powi (e - 52) \<and> x / 2 powi (e - 52) < 2 ^ 53"
proof -
  have u: "(0::real) < 2 powi (e - 52)" by simp
  have a: "(2::real) powi e = 2 ^ 52 * 2 powi (e - 52)"
    by (simp add: power_int_diff)
  have b: "(2::real) powi (e + 1) = 2 ^ 53 * 2 powi (e - 52)"
    by (simp add: power_int_diff power_int_add)
  from assms u show ?thesis
    unfolding a b by (simp add: pos_le_divide_eq pos_divide_less_eq)
qed

lemma round_double_bounds:
  assumes "0 < x"
  shows "2 powi \<lfloor>log 2 x\<rfloor> \<le> round_double x \<and> round_double x \<le> 2 powi (\<lfloor>log 2 x\<rfloor> + 1)"
proof -
  define e where "e = \<lfloor>log 2 x\<rfloor>"
  define u :: real where "u = 2 powi (e - 52)"
  have u: "0 < u" by (simp add: u_def)
  from exponent_bracket [OF assms] have br: "2 powi e \<le> x" "x < 2 powi (e + 1)"
    by (simp_all add: e_def)
  from scaled_bounds [OF br] have s: "of_int (2 ^ 52) \<le> x / u" "x / u \<le> of_int (2 ^ 53)"
    by (simp_all add: u_def)
  from round_even_mono [OF s(1)] round_even_mono [OF s(2)]
  have "2 ^ 52 \<le> round_even (x / u)" "round_even (x / u) \<le> 2 ^ 53"
    by (simp_all only: round_even_of_int)
  then have "real_of_int (2 ^ 52) \<le> of_int (round_even (x / u))"
    "real_of_int (round_even (x / u)) \<le> of_int (2 ^ 53)"
    by (simp_all only: of_int_le_iff)
  then have "(2 ^ 52 :: real) \<le> of_int (round_even (x / u))" "of_int (round_even (x / u)) \<le> (2 ^ 53 :: real)"
    by simp_all
  with u have "2 ^ 52 * u \<le> of_int (round_even (x / u)) * u" "of_int (round_even (x / u)) * u \<le> 2 ^ 53 * u"
    by simp_all
  moreover have "(2::real) powi e = 2 ^ 52 * u" "(2::real) powi (e + 1) = 2 ^ 53 * u"
    by (simp_all add: u_def power_int_diff power_int_add)
  moreover have "round_double x = of_int (round_even (x / u)) * u"
    unfolding u_def using assms br by (rule round_double_eval)
  ultimately show ?thesis
    by (simp add: e_def)
qed

lemma round_double_nonneg: "0 \<le> x \<Longrightarrow> 0 \<le> round_double x"
proof (cases "x = 0")
  case True
  then show ?thesis by (simp add: round_double_def)
next
  case False
  assume "0 \<le> x"
  with False have "0 < x" by simp
  from round_double_bounds [OF this] have "2 powi \<lfloor>log 2 x\<rfloor> \<le> round_double x" ..
  moreover have "(0::real) < 2 powi \<lfloor>log 2 x\<rfloor>" by simp
  ultimately show ?thesis by linarith
qed

lemma round_double_pos: "0 < x \<Longrightarrow> 0 < round_double x"
proof -
  assume "0 < x"
  from round_double_bounds [OF this] have "2 powi \<lfloor>log 2 x\<rfloor> \<le> round_double x" ..
  moreover have "(0::real) < 2 powi \<lfloor>log 2 x\<rfloor>" by simp
  ultimately show ?thesis by linarith
qed

lemma round_double_mono:
  assumes "0 \<le> x" and "x \<le> y"
  shows "round_double x \<le> round_double y"
proof (cases "x = 0")
  case True
  with assms round_double_nonneg [of y] show ?thesis
    by (simp add: round_double_def)
next
  case False
  with assms have x: "0 < x" and y: "0 < y" by simp_all
  from x assms(2) have le: "\<lfloor>log 2 x\<rfloor> \<le> \<lfloor>log 2 y\<rfloor>"
    by (intro floor_mono) simp
  show ?thesis
  proof (cases "\<lfloor>log 2 x\<rfloor> = \<lfloor>log 2 y\<rfloor>")
    case True
    define u :: real where "u = 2 powi (\<lfloor>log 2 x\<rfloor> - 52)"
    have u: "0 < u" by (simp add: u_def)
    with assms(2) have "x / u \<le> y / u" by (simp add: divide_right_mono)
    from round_even_mono [OF this] have "real_of_int (round_even (x / u)) \<le> of_int (round_even (y / u))"
      by simp
    with u have "of_int (round_even (x / u)) * u \<le> of_int (round_even (y / u)) * u"
      by simp
    with x y True show ?thesis
      by (simp add: round_double_def u_def Let_def)
  next
    case False
    with le have "\<lfloor>log 2 x\<rfloor> + 1 \<le> \<lfloor>log 2 y\<rfloor>" by simp
    then have "(2::real) powi (\<lfloor>log 2 x\<rfloor> + 1) \<le> 2 powi \<lfloor>log 2 y\<rfloor>"
      by (intro power_int_increasing) simp_all
    with round_double_bounds [OF x] round_double_bounds [OF y] show ?thesis
      by linarith
  qed
qed

lemma round_double_error:
  assumes "0 < x"
  shows "\<bar>round_double x - x\<bar> \<le> x / 2 ^ 53"
proof -
  define e where "e = \<lfloor>log 2 x\<rfloor>"
  define u :: real where "u = 2 powi (e - 52)"
  have u: "0 < u" by (simp add: u_def)
  from exponent_bracket [OF assms] have br: "2 powi e \<le> x" "x < 2 powi (e + 1)"
    by (simp_all add: e_def)
  have r: "round_double x = of_int (round_even (x / u)) * u"
    unfolding u_def using assms br by (rule round_double_eval)
  have "of_int (round_even (x / u)) * u - x = (of_int (round_even (x / u)) - x / u) * u"
    using u by (simp add: left_diff_distrib)
  then have "\<bar>of_int (round_even (x / u)) * u - x\<bar> = \<bar>of_int (round_even (x / u)) - x / u\<bar> * u"
    using u by (simp add: abs_mult)
  also have "\<dots> \<le> 1 / 2 * u"
    using u round_even_error [of "x / u"] by (intro mult_right_mono) simp_all
  finally have A: "\<bar>of_int (round_even (x / u)) * u - x\<bar> \<le> 1 / 2 * u" .
  have "u = 2 powi e / 2 ^ 52"
    by (simp add: u_def power_int_diff)
  also have "\<dots> \<le> x / 2 ^ 52"
    using br(1) by (simp add: divide_right_mono)
  finally have "1 / 2 * u \<le> 1 / 2 * (x / 2 ^ 52)"
    by simp
  with A show ?thesis
    unfolding r by simp
qed

lemma round_double_of_nat:
  assumes "n < 2 ^ 53"
  shows "round_double (real n) = real n"
proof (cases "n = 0")
  case True
  then show ?thesis by (simp add: round_double_def)
next
  case False
  then have x: "0 < real n" by simp
  define e where "e = \<lfloor>log 2 (real n)\<rfloor>"
  from exponent_bracket [OF x] have br: "2 powi e \<le> real n" "real n < 2 powi (e + 1)"
    by (simp_all add: e_def)
  have "e \<le> 52"
  proof (rule ccontr)
    assume "\<not> e \<le> 52"
    then have "53 \<le> e" by simp
    then have "(2::real) powi 53 \<le> 2 powi e"
      by (intro power_int_increasing) simp_all
    with br(1) have "(2::real) ^ 53 \<le> real n" by simp
    moreover from assms have "real n < 2 ^ 53"
      by (metis of_nat_less_iff of_nat_numeral of_nat_power)
    ultimately show False by simp
  qed
  then obtain k where k: "52 - e = int k"
    by (metis diff_ge_0_iff_ge nonneg_int_cases)
  then have "e - 52 = - int k" by simp
  then have u: "(2::real) powi (e - 52) = 1 / 2 ^ k"
    by (simp add: power_int_minus_divide)
  have "real n / 2 powi (e - 52) = of_int (int n * 2 ^ k)"
    unfolding u by simp
  then have "round_even (real n / 2 powi (e - 52)) = int n * 2 ^ k"
    by (simp only: round_even_of_int)
  with round_double_eval [OF x br] u show ?thesis
    by simp
qed

lemma percentage_exact_sizes:
  assumes "0 < n" and "n < 2 ^ 53" and "c \<le> n"
  shows "percentage c n = Finite (round_double (round_double (real c / real n) * 100))"
proof -
  from assms have "c < 2 ^ 53" by simp
  with assms show ?thesis
    by (simp add: percentage_def round_double_of_nat)
qed

lemma percentage_range:
  assumes "0 < n" and "n < 2 ^ 53" and "c \<le> n"
  shows "\<exists>p. percentage c n = Finite p \<and> 0 \<le> p \<and> p \<le> 100
           \<and> \<bar>p - 100 * real c / real n\<bar> \<le> 100 * real c / real n / 2 ^ 51"
proof -
  define q where "q = real c / real n"
  define q' where "q' = round_double q"
  define p where "p = round_double (q' * 100)"
  have p: "percentage c n = Finite p"
    unfolding p_def q'_def q_def using assms by (rule percentage_exact_sizes)
  from assms have q: "0 \<le> q" "q \<le> 1"
    by (simp_all add: q_def)
  have one: "round_double 1 = 1" and hundred: "round_double 100 = 100"
    using round_double_of_nat [of 1] round_double_of_nat [of 100] by simp_all
  from round_double_nonneg [OF q(1)] round_double_mono [OF q] one
  have q': "0 \<le> q'" "q' \<le> 1"
    by (simp_all add: q'_def)
  then have y: "0 \<le> q' * 100" "q' * 100 \<le> 100"
    by simp_all
  from round_double_nonneg [OF y(1)] round_double_mono [OF y] hundred
  have range: "0 \<le> p" "p \<le> 100"
    by (simp_all add: p_def)
  have err: "\<bar>p - 100 * q\<bar> \<le> 100 * q / 2 ^ 51"
  proof (cases "q = 0")
    case True
    then show ?thesis by (simp add: p_def q'_def round_double_def)
  next
    case False
    with q(1) have qpos: "0 < q" by simp
    from round_double_error [OF qpos] have e1: "\<bar>q' - q\<bar> \<le> q / 2 ^ 53"
      by (simp add: q'_def)
    from round_double_pos [OF qpos] have "0 < q' * 100"
      by (simp add: q'_def)
    from round_double_error [OF this] have e2: "\<bar>p - q' * 100\<bar> \<le> q' * 100 / 2 ^ 53"
      by (simp add: p_def)
    from e1 have "q' \<le> q + q / 2 ^ 53" by linarith
    also have "\<dots> \<le> 2 * q" using qpos by simp
    finally have "q' * 100 / 2 ^ 53 \<le> 2 * q * 100 / 2 ^ 53"
      by (simp add: divide_right_mono)
    with e2 have e3: "\<bar>p - q' * 100\<bar> \<le> 100 * q / 2 ^ 52"
      by simp
    have "\<bar>q' * 100 - 100 * q\<bar> = \<bar>100 * (q' - q)\<bar>"
      by (simp add: algebra_simps)
    also have "\<dots> = \<bar>100\<bar> * \<bar>q' - q\<bar>"
      by (rule abs_mult)
    finally have "\<bar>q' * 100 - 100 * q\<bar> = 100 * \<bar>q' - q\<bar>"
      by simp
    with e1 have e4: "\<bar>q' * 100 - 100 * q\<bar> \<le> 100 * q / 2 ^ 53"
      by simp
    have "\<bar>p - 100 * q\<bar> \<le> \<bar>p - q' * 100\<bar> + \<bar>q' * 100 - 100 * q\<bar>"
      by linarith
    also from e3 e4 have "\<dots> \<le> 100 * q / 2 ^ 52 + 100 * q / 2 ^ 53"
      by linarith
    also have "\<dots> \<le> 100 * q / 2 ^ 51"
      using qpos by simp
    finally show ?thesis .
  qed
  from p range err show ?thesis
    by (auto simp: q_def)
qed

lemma round_double_half: "round_double (1 / 2) = 1 / 2"
  using round_double_eval [of "1 / 2" "-1"] by (simp add: round_even_def)

lemma percentage_1_2: "percentage (Suc 0) 2 = Finite 50"
  using round_double_of_nat [of 1] round_double_of_nat [of 2] round_double_of_nat [of 50]
  by (simp add: percentage_def round_double_half)

lemma round_double_two_thirds: "round_double (2 / 3) = 6004799503160661 / 2 ^ 53"
  using round_double_eval [of "2 / 3" "-1"] by (simp add: round_even_def)

lemma round_double_two_thirds_100:
  "round_double (6004799503160661 / 2 ^ 53 * 100) = 4691249611844266 / 2 ^ 46"
  using round_double_eval [of "6004799503160661 / 2 ^ 53 * 100" 6] by (simp add: round_even_def)

lemma percentage_2_3: "percentage 2 3 = Finite (4691249611844266 / 2 ^ 46)"
proof -
  have "percentage 2 3 = Finite (round_double (round_double (2 / 3) * 100))"
    using percentage_exact_sizes [of 3 2] by simp
  then show ?thesis
    by (simp only: round_double_two_thirds round_double_two_thirds_100)
qed

lemma round_double_three: "round_double (3 / 50000000) = 4533471823554859 / 2 ^ 76"
  using round_double_eval [of "3 / 50000000" "-24"] by (simp add: round_even_def)

lemma round_double_three_100:
  "round_double (4533471823554859 / 2 ^ 76 * 100) = 7083549724304467 / 2 ^ 70"
  using round_double_eval [of "4533471823554859 / 2 ^ 76 * 100" "-18"] by (simp add: round_even_def)

lemma round_double_three_single:
  "round_double (100 * 3 / 50000000) = 7083549724304468 / 2 ^ 70"
  using round_double_eval [of "100 * 3 / 50000000" "-18"] by (simp add: round_even_def)

lemma percentage_3_tries: "percentage 3 50000000 = Finite (7083549724304467 / 2 ^ 70)"
proof -
  have "percentage 3 50000000 = Finite (round_double (round_double (3 / 50000000) * 100))"
    using percentage_exact_sizes [of 50000000 3] by simp
  then show ?thesis
    by (simp only: round_double_three round_double_three_100)
qed

lemma percentage_all:
  assumes "0 < n" and "n < 2 ^ 53"
  shows "percentage n n = Finite 100"
  using assms percentage_exact_sizes [of n n] round_double_of_nat [of 1] round_double_of_nat [of 100]
  by simp

lemma percentage_Suc_2_2: "percentage (Suc (Suc 0)) 2 = Finite 100"
proof -
  have "percentage 2 2 = Finite 100"
    by (rule percentage_all) simp_all
  then show ?thesis
    by (simp only: numeral_2_eq_2)
qed

lemma percentage_Suc_2_3: "percentage (Suc (Suc 0)) 3 = Finite (4691249611844266 / 2 ^ 46)"
  using percentage_2_3 by (simp only: numeral_2_eq_2)

section \<open>Properties of the collision experiments\<close>

lemma populate_sound:
  assumes "populate draw n g S0 = Some y"
  shows "\<forall>S g'. y = Inr (S, g') \<longrightarrow>
           (\<exists>ns. draw_many draw (length ns) g = Some (Inr (ns, g')) \<and> S = S0 \<union> set ns
                 \<and> (\<forall>j<length ns. card (S0 \<union> set (take j ns)) < n))
           \<and> \<not> card S < n"
  using assms
proof (induction draw n g S0 y rule: populate.raw_induct [rotated 1, consumes 1, case_names step])
  case (step f draw n g S0 y)
  show ?case
  proof (cases "card S0 < n")
    case False
    with step.hyps have "y = Inr (S0, g)" by simp
    with False show ?thesis by (auto intro: exI [of _ "[]"])
  next
    case True
    show ?thesis
    proof (intro allI impI)
      fix S g'
      assume y: "y = Inr (S, g')"
      from step.hyps True y obtain nick g1 where
        d: "draw g = Some (Inr (nick, g1))" and r: "f draw n g1 (insert nick S0) = Some y"
        by (auto split: option.splits sum.splits)
      from step.IH [OF r] y obtain ns where
        ns: "draw_many draw (length ns) g1 = Some (Inr (ns, g'))" "S = insert nick S0 \<union> set ns"
          "\<forall>j<length ns. card (insert nick S0 \<union> set (take j ns)) < n"
        and stop: "\<not> card S < n" by blast
      let ?ns = "nick # ns"
      have "draw_many draw (length ?ns) g = Some (Inr (?ns, g'))"
        using d ns(1) by simp
      moreover have "S = S0 \<union> set ?ns" using ns(2) by simp
      moreover have "card (S0 \<union> set (take j ?ns)) < n" if "j < length ?ns" for j
      proof (cases j)
        case 0
        with True show ?thesis by simp
      next
        case (Suc i)
        with that ns(3) show ?thesis by simp
      qed
      ultimately show "(\<exists>ns. draw_many draw (length ns) g = Some (Inr (ns, g')) \<and> S = S0 \<union> set ns
                 \<and> (\<forall>j<length ns. card (S0 \<union> set (take j ns)) < n)) \<and> \<not> card S < n"
        using stop by blast
    qed
  qed
qed

lemma card_last_step:
  assumes "card (set (take j ns)) < n" and "j < length ns"
  shows "card (set (take (Suc j) ns)) \<le> n"
proof -
  have "set (take (Suc j) ns) = insert (ns ! j) (set (take j ns))"
    using assms(2) by (simp add: take_Suc_conv_app_nth)
  then have "card (set (take (Suc j) ns)) \<le> Suc (card (set (take j ns)))"
    by (simp add: card_insert_if)
  with assms(1) show ?thesis by simp
qed

lemma populate_from_empty:
  assumes "populate draw n g {} = Some (Inr (S, g'))"
  shows "finite S \<and> card S = n
       \<and> (\<exists>ns. draw_many draw (length ns) g = Some (Inr (ns, g')) \<and> S = set ns
              \<and> (\<forall>j<length ns. card (set (take j ns)) < n))"
proof -
  from populate_sound [OF assms] obtain ns where
    ns: "draw_many draw (length ns) g = Some (Inr (ns, g'))" "S = set ns"
      "\<forall>j<length ns. card (set (take j ns)) < n"
    and stop: "\<not> card S < n" by auto
  have "card S \<le> n"
  proof (cases ns rule: rev_cases)
    case Nil
    with ns(2) show ?thesis by simp
  next
    case (snoc ms x)
    then have "length ms < length ns" by simp
    with ns(3) have "card (set (take (length ms) ns)) < n" by blast
    from card_last_step [OF this \<open>length ms < length ns\<close>] snoc ns(2) show ?thesis by simp
  qed
  with stop have "card S = n" by simp
  with ns show ?thesis by auto
qed

lemma trial_loop_sound:
  assumes "trial_loop draw n i g S c = Some (Inr (c', S', g'))"
  shows "S' = S \<and> (\<exists>ns. draw_many draw (n - i) g = Some (Inr (ns, g')) \<and> length ns = n - i
                      \<and> c' = c + length (filter (\<lambda>x. x \<in> S) ns))"
  using assms
proof (induction draw n i g S c rule: trial_loop.induct)
  case (1 draw n i g S c)
  show ?case
  proof (cases "i < n")
    case False
    with "1.prems" show ?thesis by (subst (asm) trial_loop.simps) simp
  next
    case True
    from "1.prems" True obtain nick g1 where
      d: "draw g = Some (Inr (nick, g1))"
      and r: "trial_loop draw n (i + 1) g1 S (if nick \<in> S then c + 1 else c) = Some (Inr (c', S', g'))"
      by (subst (asm) trial_loop.simps) (auto split: option.splits sum.splits)
    from "1.IH" [OF True d refl refl r] obtain ns where
      ns: "S' = S" "draw_many draw (n - (i + 1)) g1 = Some (Inr (ns, g'))" "length ns = n - (i + 1)"
        "c' = (if nick \<in> S then c + 1 else c) + length (filter (\<lambda>x. x \<in> S) ns)"
      by blast
    from True have n: "n - i = Suc (n - (i + 1))" by simp
    have "draw_many draw (n - i) g = Some (Inr (nick # ns, g'))"
      unfolding n using d ns(2) by simp
    moreover have "length (nick # ns) = n - i" using ns(3) True by simp
    moreover have "c' = c + length (filter (\<lambda>x. x \<in> S) (nick # ns))" using ns(4) by simp
    ultimately show ?thesis using ns(1) by blast
  qed
qed

lemma run_experiment_result:
  assumes "run_experiment draw num_initial num_tries g = Some (Inr (tries, c, pct))"
  shows "\<exists>S g1 ns g2. populate draw num_initial g {} = Some (Inr (S, g1))
           \<and> draw_many draw num_tries g1 = Some (Inr (ns, g2)) \<and> length ns = num_tries
           \<and> tries = num_tries \<and> c = length (filter (\<lambda>x. x \<in> S) ns) \<and> c \<le> num_tries
           \<and> pct = percentage c num_tries"
proof -
  from assms obtain S g1 S' g2 where
    p: "populate draw num_initial g {} = Some (Inr (S, g1))"
    and t: "trial_loop draw num_tries 0 g1 S 0 = Some (Inr (c, S', g2))"
    and res: "tries = num_tries" "pct = percentage c num_tries"
    unfolding run_experiment_def by (auto split: option.splits sum.splits)
  from trial_loop_sound [OF t] obtain ns where
    ns: "draw_many draw num_tries g1 = Some (Inr (ns, g2))" "length ns = num_tries"
      "c = length (filter (\<lambda>x. x \<in> S) ns)" by auto
  have "length (filter (\<lambda>x. x \<in> S) ns) \<le> length ns" by (rule length_filter_le)
  with p ns res show ?thesis by blast
qed

lemma NUM_TRIES_pos: "0 < NUM_TRIES"
  by (simp add: NUM_TRIES_def)

lemma NUM_TRIES_small: "NUM_TRIES < 2 ^ 53"
  by (simp add: NUM_TRIES_def)

lemma run_experiment_report:
  assumes "run_experiment draw num_initial num_tries g = Some (Inr (tries, c, pct))"
    and "0 < num_tries" and "num_tries < 2 ^ 53"
  shows "tries = num_tries
       \<and> (\<exists>S g1 ns g2. populate draw num_initial g {} = Some (Inr (S, g1))
              \<and> draw_many draw num_tries g1 = Some (Inr (ns, g2)) \<and> length ns = num_tries
              \<and> c = length (filter (\<lambda>x. x \<in> S) ns))
       \<and> c \<le> num_tries
       \<and> pct = percentage c num_tries
       \<and> (\<exists>v. pct = Finite v \<and> 0 \<le> v \<and> v \<le> 100
              \<and> \<bar>v - 100 * real c / real num_tries\<bar> \<le> 100 * real c / real num_tries / 2 ^ 51)"
proof -
  from run_experiment_result [OF assms(1)] obtain S g1 ns g2 where
    r: "populate draw num_initial g {} = Some (Inr (S, g1))"
      "draw_many draw num_tries g1 = Some (Inr (ns, g2))" "length ns = num_tries"
      "tries = num_tries" "c = length (filter (\<lambda>x. x \<in> S) ns)" "c \<le> num_tries"
      "pct = percentage c num_tries"
    by blast
  from percentage_range [OF assms(2,3) r(6)] r(7)
  have "\<exists>v. pct = Finite v \<and> 0 \<le> v \<and> v \<le> 100
          \<and> \<bar>v - 100 * real c / real num_tries\<bar> \<le> 100 * real c / real num_tries / 2 ^ 51"
    by simp
  with r show ?thesis
    by blast
qed

text \<open>
  Claim C5. Whatever the way of drawing (that is, for each of the four experiments): when
  the population loop, started with the empty set and the target \<open>n\<close>, terminates, the set
  is finite and has exactly \<open>n\<close> elements. It is the set of the nicknames drawn (a nickname
  drawn twice counts once), and before each draw the set had fewer than \<open>n\<close> elements: the
  loop stops as soon as the target is reached. The experiments run it with the target
  \<open>NUM_INITIAL_NICKNAMES\<close>, ten million.
\<close>

theorem population_reaches_target:
  assumes "populate draw n g {} = Some (Inr (nickname_db, g'))"
  shows "finite nickname_db \<and> card nickname_db = n
       \<and> (\<exists>nicknames. draw_many draw (length nicknames) g = Some (Inr (nicknames, g'))
              \<and> nickname_db = set nicknames
              \<and> (\<forall>j<length nicknames. card (set (take j nicknames)) < n))
       \<and> (n = NUM_INITIAL_NICKNAMES \<longrightarrow> card nickname_db = 10000000)"
  using populate_from_empty [OF assms] by (auto simp: NUM_INITIAL_NICKNAMES_def)

theorem population_reaches_target_witness:
  "populate (draw_reuse mangrove_corpus) 2
       ([0, 0, 0, 0, 0, 0, 0, 0, 0, 0, 0, 0, 0, 0, 0, 0, 0, 0, 0, 1] @- sconst 0) {}
     = Some (Inr ({''Aangro00'', ''Bangro00''}, sconst 0))
   \<and> draw_many (draw_reuse mangrove_corpus) (length [''Aangro00'', ''Aangro00'', ''Bangro00''])
       ([0, 0, 0, 0, 0, 0, 0, 0, 0, 0, 0, 0, 0, 0, 0, 0, 0, 0, 0, 1] @- sconst 0)
     = Some (Inr ([''Aangro00'', ''Aangro00'', ''Bangro00''], sconst 0))
   \<and> finite {''Aangro00'', ''Bangro00''}
   \<and> card {''Aangro00'', ''Bangro00''} = 2"
proof -
  have run: "populate (draw_reuse mangrove_corpus) 2
       ([0, 0, 0, 0, 0, 0, 0, 0, 0, 0, 0, 0, 0, 0, 0, 0, 0, 0, 0, 1] @- sconst 0) {}
     = Some (Inr ({''Aangro00'', ''Bangro00''}, sconst 0))"
    by (simp add: populate.simps draw_reuse_def eval_defs insert_commute)
  have draws: "draw_many (draw_reuse mangrove_corpus)
       (length [''Aangro00'', ''Aangro00'', ''Bangro00''])
       ([0, 0, 0, 0, 0, 0, 0, 0, 0, 0, 0, 0, 0, 0, 0, 0, 0, 0, 0, 1] @- sconst 0)
     = Some (Inr ([''Aangro00'', ''Aangro00'', ''Bangro00''], sconst 0))"
    by (simp add: draw_reuse_def eval_defs)
  from population_reaches_target [OF run] run draws show ?thesis
    by blast
qed

text \<open>
  Claim C6, as amended. Whatever the way of drawing, with a positive number of trials
  below \<open>2 ^ 53\<close> (so that the conversion of the sizes to \<^verbatim>\<open>double\<close> is exact): the
  result of an experiment is the number of trials, the number of collisions and a
  percentage. The collisions are those of the trial draws (exactly as many as there are
  trials) whose nickname is a member of the set built by the population phase; the count
  is at most the number of trials. The percentage is the double that the expression
  \<^verbatim>\<open>collisions / trials * 100\<close> evaluates to, with the quotient and the product each
  rounded to the nearest double: a finite number between \<open>0\<close> and \<open>100\<close> whose distance from
  \<open>100 * collisions / trials\<close> is at most that number times \<open>2 ^ -51\<close>. The four experiments
  \<open>case01\<close> to \<open>case04\<close> are the instances with \<open>NUM_INITIAL_NICKNAMES\<close> and \<open>NUM_TRIES\<close>,
  each with its own way of drawing and its own initial state: whatever the engine
  constructors, the seeds and the corpus, a result that one of them reports is \<open>NUM_TRIES\<close>,
  the number of its \<open>NUM_TRIES\<close> trial draws that are members of its populated set, and the
  percentage of that count.
\<close>

theorem experiment_report:
  assumes "run_experiment draw num_initial num_tries g = Some (Inr (tries, c, pct))"
    and "0 < num_tries" and "num_tries < 2 ^ 53"
  shows "tries = num_tries
       \<and> (\<exists>S g1 ns g2. populate draw num_initial g {} = Some (Inr (S, g1))
              \<and> draw_many draw num_tries g1 = Some (Inr (ns, g2)) \<and> length ns = num_tries
              \<and> c = length (filter (\<lambda>x. x \<in> S) ns))
       \<and> c \<le> num_tries
       \<and> pct = percentage c num_tries
       \<and> (\<exists>v. pct = Finite v \<and> 0 \<le> v \<and> v \<le> 100
              \<and> \<bar>v - 100 * real c / real num_tries\<bar> \<le> 100 * real c / real num_tries / 2 ^ 51)
       \<and> (\<forall>(result, draw', g') \<in>
              {(case01 mt19937 random_device word_db,
                  draw_reuse word_db, mt19937 (shd random_device)),
               (case02 mt19937 random_device word_db,
                  draw_recreate mt19937 word_db, random_device),
               (case03 mt19937_64 random_device word_db,
                  draw_reuse word_db, mt19937_64 (shd random_device)),
               (case04 mt19937_64 random_device word_db,
                  draw_recreate mt19937_64 word_db, random_device)}.
            \<forall>t k p. result = Some (Inr (t, k, p)) \<longrightarrow>
              t = NUM_TRIES
              \<and> (\<exists>S g1 ns g2. populate draw' NUM_INITIAL_NICKNAMES g' {} = Some (Inr (S, g1))
                     \<and> draw_many draw' NUM_TRIES g1 = Some (Inr (ns, g2))
                     \<and> length ns = NUM_TRIES
                     \<and> k = length (filter (\<lambda>x. x \<in> S) ns))
              \<and> k \<le> NUM_TRIES
              \<and> p = percentage k NUM_TRIES
              \<and> (\<exists>v. p = Finite v \<and> 0 \<le> v \<and> v \<le> 100
                     \<and> \<bar>v - 100 * real k / real NUM_TRIES\<bar>
                         \<le> 100 * real k / real NUM_TRIES / 2 ^ 51))"
proof -
  note general = run_experiment_report [OF assms]
  have c1: "t = NUM_TRIES
      \<and> (\<exists>S g1 ns g2. populate (draw_reuse word_db) NUM_INITIAL_NICKNAMES
                          (mt19937 (shd random_device)) {} = Some (Inr (S, g1))
             \<and> draw_many (draw_reuse word_db) NUM_TRIES g1 = Some (Inr (ns, g2))
             \<and> length ns = NUM_TRIES
             \<and> k = length (filter (\<lambda>x. x \<in> S) ns))
      \<and> k \<le> NUM_TRIES
      \<and> p = percentage k NUM_TRIES
      \<and> (\<exists>v. p = Finite v \<and> 0 \<le> v \<and> v \<le> 100
             \<and> \<bar>v - 100 * real k / real NUM_TRIES\<bar> \<le> 100 * real k / real NUM_TRIES / 2 ^ 51)"
    if "case01 mt19937 random_device word_db = Some (Inr (t, k, p))" for t k p
    using that unfolding case01_def
    by (rule run_experiment_report [OF _ NUM_TRIES_pos NUM_TRIES_small])
  have c2: "t = NUM_TRIES
      \<and> (\<exists>S g1 ns g2. populate (draw_recreate mt19937 word_db) NUM_INITIAL_NICKNAMES
                          random_device {} = Some (Inr (S, g1))
             \<and> draw_many (draw_recreate mt19937 word_db) NUM_TRIES g1 = Some (Inr (ns, g2))
             \<and> length ns = NUM_TRIES
             \<and> k = length (filter (\<lambda>x. x \<in> S) ns))
      \<and> k \<le> NUM_TRIES
      \<and> p = percentage k NUM_TRIES
      \<and> (\<exists>v. p = Finite v \<and> 0 \<le> v \<and> v \<le> 100
             \<and> \<bar>v - 100 * real k / real NUM_TRIES\<bar> \<le> 100 * real k / real NUM_TRIES / 2 ^ 51)"
    if "case02 mt19937 random_device word_db = Some (Inr (t, k, p))" for t k p
    using that unfolding case02_def
    by (rule run_experiment_report [OF _ NUM_TRIES_pos NUM_TRIES_small])
  have c3: "t = NUM_TRIES
      \<and> (\<exists>S g1 ns g2. populate (draw_reuse word_db) NUM_INITIAL_NICKNAMES
                          (mt19937_64 (shd random_device)) {} = Some (Inr (S, g1))
             \<and> draw_many (draw_reuse word_db) NUM_TRIES g1 = Some (Inr (ns, g2))
             \<and> length ns = NUM_TRIES
             \<and> k = length (filter (\<lambda>x. x \<in> S) ns))
      \<and> k \<le> NUM_TRIES
      \<and> p = percentage k NUM_TRIES
      \<and> (\<exists>v. p = Finite v \<and> 0 \<le> v \<and> v \<le> 100
             \<and> \<bar>v - 100 * real k / real NUM_TRIES\<bar> \<le> 100 * real k / real NUM_TRIES / 2 ^ 51)"
    if "case03 mt19937_64 random_device word_db = Some (Inr (t, k, p))" for t k p
    using that unfolding case03_def
    by (rule run_experiment_report [OF _ NUM_TRIES_pos NUM_TRIES_small])
  have c4: "t = NUM_TRIES
      \<and> (\<exists>S g1 ns g2. populate (draw_recreate mt19937_64 word_db) NUM_INITIAL_NICKNAMES
                          random_device {} = Some (Inr (S, g1))
             \<and> draw_many (draw_recreate mt19937_64 word_db) NUM_TRIES g1 = Some (Inr (ns, g2))
             \<and> length ns = NUM_TRIES
             \<and> k = length (filter (\<lambda>x. x \<in> S) ns))
      \<and> k \<le> NUM_TRIES
      \<and> p = percentage k NUM_TRIES
      \<and> (\<exists>v. p = Finite v \<and> 0 \<le> v \<and> v \<le> 100
             \<and> \<bar>v - 100 * real k / real NUM_TRIES\<bar> \<le> 100 * real k / real NUM_TRIES / 2 ^ 51)"
    if "case04 mt19937_64 random_device word_db = Some (Inr (t, k, p))" for t k p
    using that unfolding case04_def
    by (rule run_experiment_report [OF _ NUM_TRIES_pos NUM_TRIES_small])
  have cases: "\<forall>(result, draw', g') \<in>
              {(case01 mt19937 random_device word_db,
                  draw_reuse word_db, mt19937 (shd random_device)),
               (case02 mt19937 random_device word_db,
                  draw_recreate mt19937 word_db, random_device),
               (case03 mt19937_64 random_device word_db,
                  draw_reuse word_db, mt19937_64 (shd random_device)),
               (case04 mt19937_64 random_device word_db,
                  draw_recreate mt19937_64 word_db, random_device)}.
            \<forall>t k p. result = Some (Inr (t, k, p)) \<longrightarrow>
              t = NUM_TRIES
              \<and> (\<exists>S g1 ns g2. populate draw' NUM_INITIAL_NICKNAMES g' {} = Some (Inr (S, g1))
                     \<and> draw_many draw' NUM_TRIES g1 = Some (Inr (ns, g2))
                     \<and> length ns = NUM_TRIES
                     \<and> k = length (filter (\<lambda>x. x \<in> S) ns))
              \<and> k \<le> NUM_TRIES
              \<and> p = percentage k NUM_TRIES
              \<and> (\<exists>v. p = Finite v \<and> 0 \<le> v \<and> v \<le> 100
                     \<and> \<bar>v - 100 * real k / real NUM_TRIES\<bar>
                         \<le> 100 * real k / real NUM_TRIES / 2 ^ 51)"
    by (simp only: ball_simps prod.case) (use c1 c2 c3 c4 in blast)
  from general cases show ?thesis
    by (intro conjI) (elim conjE, assumption)+
qed

theorem experiment_report_witness:
  "run_experiment (draw_reuse mangrove_corpus) 1 2
       ([0, 0, 0, 0, 0, 0, 0, 0, 0, 0, 0, 0, 0, 0, 0, 0, 0, 0, 0, 1] @- sconst 0)
     = Some (Inr (2, 1, Finite 50))
   \<and> (0::nat) < 2 \<and> (2::nat) < 2 ^ 53 \<and> (1::nat) \<le> 2
   \<and> percentage 1 2 = Finite 50
   \<and> (0::real) \<le> 50 \<and> (50::real) \<le> 100
   \<and> \<bar>50 - 100 * real 1 / real 2\<bar> \<le> 100 * real 1 / real 2 / 2 ^ 51
   \<and> run_experiment (draw_recreate sconst mangrove_corpus) 1 2 (sconst 0)
     = Some (Inr (2, 2, Finite 100))"
proof -
  have recreate: "run_experiment (draw_recreate sconst mangrove_corpus) 1 2 (sconst 0)
     = Some (Inr (2, 2, Finite 100))"
    by (simp add: run_experiment_def populate.simps trial_loop.simps draw_recreate_def eval_defs
        percentage_Suc_2_2)
  have run: "run_experiment (draw_reuse mangrove_corpus) 1 2
       ([0, 0, 0, 0, 0, 0, 0, 0, 0, 0, 0, 0, 0, 0, 0, 0, 0, 0, 0, 1] @- sconst 0)
     = Some (Inr (2, 1, Finite 50))"
    by (simp add: run_experiment_def populate.simps trial_loop.simps draw_reuse_def eval_defs
        percentage_1_2)
  have pos: "(0::nat) < 2" and small: "(2::nat) < 2 ^ 53"
    by simp_all
  from experiment_report [OF run pos small] run recreate show ?thesis
    by simp
qed

text \<open>
  Claim C6, as stated, fails: the reported percentage is not the number
  \<open>100 * collisions / trials\<close> but the result of two rounded operations. With \<open>2\<close> collisions
  in \<open>3\<close> trials the experiment reports \<open>4691249611844266 / 2 ^ 46\<close>, which is
  \<open>66.66666666666665719\<dots>\<close> and not \<open>200 / 3\<close>. With the \<open>NUM_TRIES\<close> trials of the program
  and \<open>3\<close> collisions the percentage is \<open>7083549724304467 / 2 ^ 70\<close>, which is neither
  \<open>100 * 3 / NUM_TRIES\<close> nor the double nearest to that number.
\<close>

theorem experiment_report_counterexample:
  "run_experiment (draw_reuse mangrove_corpus) 1 3
       ([0, 0, 0, 0, 0, 0, 0, 0, 0, 0, 0, 0, 0, 0, 0, 0, 0, 0, 0, 0, 0, 0, 0, 0, 0, 0, 0, 1]
          @- sconst 0)
     = Some (Inr (3, 2, Finite (4691249611844266 / 2 ^ 46)))
   \<and> (4691249611844266 / 2 ^ 46 :: real) \<noteq> 100 * real 2 / real 3
   \<and> percentage 3 NUM_TRIES = Finite (7083549724304467 / 2 ^ 70)
   \<and> (7083549724304467 / 2 ^ 70 :: real) \<noteq> 100 * real 3 / real NUM_TRIES
   \<and> (7083549724304467 / 2 ^ 70 :: real) \<noteq> round_double (100 * real 3 / real NUM_TRIES)"
proof -
  have run: "run_experiment (draw_reuse mangrove_corpus) 1 3
       ([0, 0, 0, 0, 0, 0, 0, 0, 0, 0, 0, 0, 0, 0, 0, 0, 0, 0, 0, 0, 0, 0, 0, 0, 0, 0, 0, 1]
          @- sconst 0)
     = Some (Inr (3, 2, Finite (4691249611844266 / 2 ^ 46)))"
    by (simp add: run_experiment_def populate.simps trial_loop.simps draw_reuse_def eval_defs
        percentage_Suc_2_3)
  have a: "(4691249611844266 / 2 ^ 46 :: real) \<noteq> 100 * real 2 / real 3"
    by simp
  have p: "percentage 3 NUM_TRIES = Finite (7083549724304467 / 2 ^ 70)"
    unfolding NUM_TRIES_def by (rule percentage_3_tries)
  have b: "(7083549724304467 / 2 ^ 70 :: real) \<noteq> 100 * real 3 / real NUM_TRIES"
    by (simp add: NUM_TRIES_def)
  have "round_double (100 * real 3 / real NUM_TRIES) = 7083549724304468 / 2 ^ 70"
    using round_double_three_single by (simp add: NUM_TRIES_def)
  then have c: "(7083549724304467 / 2 ^ 70 :: real) \<noteq> round_double (100 * real 3 / real NUM_TRIES)"
    by simp
  from run a p b c show ?thesis
    by (intro conjI)
qed

text \<open>
  Claim C7. Whatever the way of drawing: the set that the trial loop returns after its
  draws is the set it was started with, that is, the set at the end of the population
  phase. The loop only tests membership.
\<close>

theorem trial_phase_preserves_set:
  assumes "trial_loop draw n i g nickname_db c = Some (Inr (c', nickname_db', g'))"
  shows "nickname_db' = nickname_db"
  using trial_loop_sound [OF assms] by blast

theorem trial_phase_preserves_set_witness:
  "trial_loop (draw_reuse mangrove_corpus) 2 0
       ([0, 0, 0, 0, 0, 0, 0, 0, 0, 0, 0, 1] @- sconst 0) {''Aangro00''} 0
     = Some (Inr (1, {''Aangro00''}, sconst 0))
   \<and> {''Aangro00''} = {''Aangro00''}"
proof -
  have run: "trial_loop (draw_reuse mangrove_corpus) 2 0
       ([0, 0, 0, 0, 0, 0, 0, 0, 0, 0, 0, 1] @- sconst 0) {''Aangro00''} 0
     = Some (Inr (1, {''Aangro00''}, sconst 0))"
    by (simp add: trial_loop.simps draw_reuse_def eval_defs)
  from trial_phase_preserves_set [OF run] run show ?thesis
    by simp
qed

section \<open>Properties of loading the corpus\<close>

lemma getline_line:
  "CHR 0x0A \<notin> set l \<Longrightarrow> getline (l @ CHR 0x0A # rest) = (l, rest, False)"
  by (induction l) auto

lemma getline_tail:
  "CHR 0x0A \<notin> set t \<Longrightarrow> getline t = (t, [], True)"
  by (induction t) auto

lemma load_loop_lines:
  assumes "\<forall>l \<in> set ls. CHR 0x0A \<notin> set l" and "CHR 0x0A \<notin> set t"
  shows "load_loop (file_of_lines ls @ t) db = foldl store_line db ls"
  using assms(1)
proof (induction ls arbitrary: db)
  case Nil
  from getline_tail [OF assms(2)] show ?case
    by (subst load_loop.simps) (simp add: file_of_lines_def)
next
  case (Cons l ls)
  then have "CHR 0x0A \<notin> set l" by simp
  from getline_line [OF this, of "file_of_lines ls @ t"]
  have "load_loop (file_of_lines (l # ls) @ t) db = load_loop (file_of_lines ls @ t) (store_line db l)"
    by (subst load_loop.simps) (simp add: file_of_lines_def)
  with Cons show ?case by simp
qed

lemma sz_sub_2_less:
  assumes "n \<le> 2 ^ 64 - 2"
  shows "sz_sub len 2 < n \<longleftrightarrow> 2 \<le> len \<and> len - 2 < n"
  using assms by (auto simp: sz_sub_def)

lemma length_store_line: "length (store_line db l) = length db"
  by (simp add: store_line_def)

lemma length_foldl_store_line: "length (foldl store_line db ls) = length db"
  by (induction ls arbitrary: db) (simp_all add: length_store_line)

lemma take_drop_strip:
  "2 \<le> length l \<Longrightarrow> take (length l - 2) (drop (Suc 0) l) = strip_delimiters l"
  unfolding strip_delimiters_def
  by (cases l) (simp_all add: butlast_conv_take)

lemma store_line_nth:
  assumes "length db \<le> 2 ^ 64 - 2" and "L < length db"
  shows "store_line db l ! L =
     db ! L @ (if 2 \<le> length l \<and> length l - 2 = L then [strip_delimiters l] else [])"
proof (cases "2 \<le> length l \<and> length l - 2 < length db")
  case True
  then have "sz_sub (length l) 2 = length l - 2" by (simp add: sz_sub_def)
  with True assms show ?thesis
    by (auto simp: store_line_def take_drop_strip nth_list_update)
next
  case False
  with sz_sub_2_less [OF assms(1), of "length l"] have "\<not> sz_sub (length l) 2 < length db" by simp
  with False assms(2) show ?thesis by (auto simp: store_line_def)
qed

lemma foldl_store_line_nth:
  assumes "length db \<le> 2 ^ 64 - 2" and "L < length db"
  shows "foldl store_line db ls ! L =
     db ! L @ map strip_delimiters (filter (\<lambda>l. 2 \<le> length l \<and> length l - 2 = L) ls)"
  using assms
proof (induction ls arbitrary: db)
  case Nil
  show ?case by simp
next
  case (Cons l ls)
  from Cons.prems have "length (store_line db l) \<le> 2 ^ 64 - 2" "L < length (store_line db l)"
    by (simp_all add: length_store_line)
  from Cons.IH [OF this] store_line_nth [OF Cons.prems, of l] show ?case by simp
qed

lemma load_word_db_lines:
  assumes "\<forall>l \<in> set ls. CHR 0x0A \<notin> set l" and "CHR 0x0A \<notin> set t"
  shows "\<exists>db. load_word_db (Some (file_of_lines ls @ t)) = Inr db \<and> length db = 13
     \<and> (\<forall>L<13. db ! L = map strip_delimiters (filter (\<lambda>l. 2 \<le> length l \<and> length l - 2 = L) ls))
     \<and> bucket_invariant db"
proof -
  define db where "db = foldl store_line (replicate 13 []) ls"
  have run: "load_word_db (Some (file_of_lines ls @ t)) = Inr db"
    unfolding db_def load_word_db_def MAX_NICKNAME_LEN_def using load_loop_lines [OF assms] by simp
  have len: "length db = 13" unfolding db_def by (simp add: length_foldl_store_line)
  have nth: "db ! L = map strip_delimiters (filter (\<lambda>l. 2 \<le> length l \<and> length l - 2 = L) ls)"
    if "L < 13" for L
    unfolding db_def using foldl_store_line_nth [of "replicate 13 []" L ls] that by simp
  have "length w = L" if "L < 13" "w \<in> set (db ! L)" for L w
  proof -
    from that nth obtain l where "2 \<le> length l" "length l - 2 = L" "w = strip_delimiters l" by auto
    then show ?thesis by (simp add: strip_delimiters_def)
  qed
  then have "bucket_invariant db"
    unfolding bucket_invariant_def using len by (auto simp: in_set_enumerate_eq)
  with run len nth show ?thesis by blast
qed

lemma store_line_invariant:
  assumes "bucket_invariant db" and "length db \<le> 2 ^ 64 - 2"
  shows "bucket_invariant (store_line db l)"
proof -
  have "length w = L" if "L < length (store_line db l)" "w \<in> set (store_line db l ! L)" for L w
  proof -
    from that(1) have L: "L < length db" by (simp add: length_store_line)
    from that(2) store_line_nth [OF assms(2) L, of l]
    have "w \<in> set (db ! L) \<or> (2 \<le> length l \<and> length l - 2 = L \<and> w = strip_delimiters l)"
      by (auto split: if_splits)
    then show ?thesis
    proof
      assume "w \<in> set (db ! L)"
      with assms(1) L show ?thesis by (rule bucket_invariantD)
    next
      assume "2 \<le> length l \<and> length l - 2 = L \<and> w = strip_delimiters l"
      then show ?thesis by (auto simp: strip_delimiters_def)
    qed
  qed
  then show ?thesis
    unfolding bucket_invariant_def by (auto simp: in_set_enumerate_eq)
qed

lemma load_loop_invariant:
  assumes "bucket_invariant db" and "length db \<le> 2 ^ 64 - 2"
  shows "bucket_invariant (load_loop f db) \<and> length (load_loop f db) = length db"
  using assms
proof (induction f db rule: load_loop.induct)
  case (1 f db)
  obtain line rest eof where g: "getline f = (line, rest, eof)"
    by (cases "getline f") auto
  show ?case
  proof (cases eof)
    case True
    with g "1.prems" show ?thesis by (subst (1 2) load_loop.simps) simp
  next
    case False
    from "1.prems" have "bucket_invariant (store_line db line)"
      "length (store_line db line) \<le> 2 ^ 64 - 2"
      by (simp_all add: store_line_invariant length_store_line)
    from "1.IH" [OF g [symmetric] refl False this] g False show ?thesis
      by (subst (1 2) load_loop.simps) (simp add: length_store_line)
  qed
qed

lemma load_word_db_invariant:
  assumes "load_word_db file = Inr db"
  shows "bucket_invariant db \<and> length db = MAX_NICKNAME_LEN + 1"
proof -
  have "bucket_invariant (replicate (MAX_NICKNAME_LEN + 1) [])"
    unfolding bucket_invariant_def by (auto simp: in_set_enumerate_eq)
  moreover have "length (replicate (MAX_NICKNAME_LEN + 1) ([] :: string list)) \<le> 2 ^ 64 - 2"
    by (simp add: MAX_NICKNAME_LEN_def)
  ultimately show ?thesis
    using assms load_loop_invariant [of "replicate (MAX_NICKNAME_LEN + 1) []"]
    unfolding load_word_db_def by (auto split: option.splits)
qed

lemma empty_db:
  "replicate (MAX_NICKNAME_LEN + 1) [] = [[], [], [], [], [], [], [], [], [], [], [], [], []]"
  by (simp add: MAX_NICKNAME_LEN_def eval_nat_numeral)

text \<open>
  Claim C8. Every loaded corpus satisfies the bucket invariant (lemma
  \<open>load_word_db_invariant\<close>), and the lines that end in a newline are placed or dropped as
  the claim says (lemma \<open>load_word_db_lines\<close>). A last line that the end of the file
  terminates is not: reading it sets \<^verbatim>\<open>eofbit\<close>, and the loop leaves without storing it. In the file of the two entries \<open>"abc"\<close> and \<open>"de"\<close>, the
  second without a newline behind it, the entry \<open>"de"\<close> has the stripped length \<open>2\<close> and is
  not placed in bucket \<open>2\<close>; with the newline it is.
\<close>

theorem load_word_db_drops_unterminated_entry:
  "load_word_db (Some (CHR 0x22 # ''abc'' @ [CHR 0x22, CHR 0x0A, CHR 0x22] @ ''de'' @ [CHR 0x22]))
     = Inr [[], [], [], [''abc''], [], [], [], [], [], [], [], [], []]
   \<and> load_word_db
        (Some (CHR 0x22 # ''abc'' @ [CHR 0x22, CHR 0x0A, CHR 0x22] @ ''de'' @ [CHR 0x22, CHR 0x0A]))
     = Inr [[], [], [''de''], [''abc''], [], [], [], [], [], [], [], [], []]"
  unfolding load_word_db_def empty_db
  by (simp add: load_loop.simps store_line_def sz_sub_def)

end
